theory Spec2Isabelle
  imports Complex_Main "HOL-Library.AList"
begin

section \<open>Python values, objects and the heap\<close>

text \<open>
  The engine threads a \<^verbatim>\<open>State = Dict[str, Any]\<close> through node callables that mutate it in
  place, and the run store keeps a reference to that very dictionary.  Dictionaries and lists
  are therefore objects on a heap, and a value is either immutable or a reference.
\<close>

type_synonym addr = nat

datatype pyval =
    PyNone
  | PyBool bool
  | PyInt int
  | PyStr string
  | PyDictRef addr
  | PyListRef addr

type_synonym pydict = "string \<rightharpoonup> pyval"

record heap =
  dicts :: "addr \<rightharpoonup> pydict"
  lists :: "addr \<rightharpoonup> pyval list"
  next_addr :: addr

datatype exn = KeyError | TypeError | AttributeError | NodeError string

text \<open>Python truthiness, as \<^verbatim>\<open>if state.get("_finished")\<close> applies it.\<close>

definition py_truthy :: "heap \<Rightarrow> pyval \<Rightarrow> bool" where
  "py_truthy h v =
     (case v of
        PyNone \<Rightarrow> False
      | PyBool b \<Rightarrow> b
      | PyInt i \<Rightarrow> i \<noteq> 0
      | PyStr s \<Rightarrow> s \<noteq> []
      | PyDictRef a \<Rightarrow> (case dicts h a of Some d \<Rightarrow> dom d \<noteq> {} | None \<Rightarrow> True)
      | PyListRef a \<Rightarrow> (case lists h a of Some xs \<Rightarrow> xs \<noteq> [] | None \<Rightarrow> True))"

text \<open>\<^verbatim>\<open>d.get(k)\<close>: the value, or \<^verbatim>\<open>None\<close> when the key is absent.\<close>

definition dict_get :: "pydict \<Rightarrow> string \<Rightarrow> pyval" where
  "dict_get d k = (case d k of None \<Rightarrow> PyNone | Some v \<Rightarrow> v)"

text \<open>\<^verbatim>\<open>dict(initial_state)\<close>: a new dictionary object with the same bindings.\<close>

definition dict_copy :: "pydict \<Rightarrow> heap \<Rightarrow> addr \<times> heap" where
  "dict_copy d h =
     (next_addr h, h\<lparr>dicts := (dicts h)(next_addr h \<mapsto> d), next_addr := Suc (next_addr h)\<rparr>)"

text \<open>\<^verbatim>\<open>state.setdefault(k, v)\<close> on the dictionary object at \<open>a\<close>.\<close>

definition dict_setdefault :: "addr \<Rightarrow> string \<Rightarrow> pyval \<Rightarrow> heap \<Rightarrow> heap" where
  "dict_setdefault a k v h =
     (case dicts h a of
        None \<Rightarrow> h
      | Some d \<Rightarrow> (case d k of
                     None \<Rightarrow> h\<lparr>dicts := (dicts h)(a \<mapsto> d(k \<mapsto> v))\<rparr>
                   | Some _ \<Rightarrow> h))"

text \<open>\<^verbatim>\<open>state.pop(k, None)\<close> on the dictionary object at \<open>a\<close>: the value and the heap
  in which the key is gone.\<close>

definition dict_pop :: "addr \<Rightarrow> string \<Rightarrow> heap \<Rightarrow> pyval \<times> heap" where
  "dict_pop a k h =
     (case dicts h a of
        None \<Rightarrow> (PyNone, h)
      | Some d \<Rightarrow> (dict_get d k, h\<lparr>dicts := (dicts h)(a \<mapsto> d(k := None))\<rparr>))"

section \<open>models.py\<close>

text \<open>A node takes the reference to the state and the heap; it returns the heap as it left
  it and either the exception it raised or the reference to the state it returns.\<close>

type_synonym node_callable = "addr \<Rightarrow> heap \<Rightarrow> heap \<times> (exn + addr)"

record execution_log_entry =
  step :: int
  node_id :: pyval
  duration_ms :: real
  summary :: string

record graph =
  id_graph :: string
  nodes :: "string \<rightharpoonup> node_callable"
  edges :: "string \<rightharpoonup> string option"
  start_node_id :: string
  max_steps :: int

section \<open>The environment: clocks and string formatting\<close>

text \<open>
  \<^verbatim>\<open>datetime.utcnow().isoformat()\<close>, \<^verbatim>\<open>time.perf_counter()\<close> and the formatting of a
  value inside an f-string are inputs of the model: the \<open>n\<close>-th reading of a clock is
  \<open>utcnow E n\<close> or \<open>perf_counter E n\<close>.
\<close>

record env =
  utcnow :: "nat \<Rightarrow> string"
  perf_counter :: "nat \<Rightarrow> real"
  py_format :: "heap \<Rightarrow> pyval \<Rightarrow> string"

section \<open>store.py\<close>

record run =
  id_run :: string
  graph_id :: string
  state :: addr
  log_run :: "execution_log_entry list"
  status :: string
  created_at :: string
  updated_at :: string

text \<open>
  What a pass through the executor's loop body did, recorded for the statements below; the
  executor never reads it (\<open>run_graph_trace_ghost\<close>).
  \<^item> \<open>Unresolved n e\<close>: \<^verbatim>\<open>graph.nodes[n]\<close> raised \<open>e\<close>, no node was invoked;
  \<^item> \<open>Failed n e\<close>: node \<open>n\<close> was invoked and raised \<open>e\<close>;
  \<^item> \<open>Aborted n e\<close>: node \<open>n\<close> returned, then building the summary or updating the
    run raised \<open>e\<close>;
  \<^item> \<open>Returned n f x\<close>: node \<open>n\<close> returned a state whose \<^verbatim>\<open>_finished\<close> is truthy iff
    \<open>f\<close> and whose \<^verbatim>\<open>_next_node\<close> entry is \<open>x\<close>, and the pass reached the routing.
\<close>

datatype event =
    Unresolved pyval exn
  | Failed pyval exn
  | Aborted pyval exn
  | Returned pyval bool "pyval option"

fun ev_node :: "event \<Rightarrow> pyval" where
  "ev_node (Unresolved n e) = n"
| "ev_node (Failed n e) = n"
| "ev_node (Aborted n e) = n"
| "ev_node (Returned n f x) = n"

text \<open>The process: the heap, the module-level \<^verbatim>\<open>RUNS\<close> dictionary (in insertion order), the
  number of clock readings so far, and the record of the loop passes.\<close>

record world =
  mem :: heap
  RUNS :: "(string \<times> run) list"
  ticks :: nat
  trace :: "event list"

text \<open>\<^verbatim>\<open>str(n)\<close> for a natural number.\<close>

definition digit_char :: "nat \<Rightarrow> char" where
  "digit_char d = ''0123456789'' ! d"

fun py_str_nat :: "nat \<Rightarrow> string" where
  "py_str_nat n = (if n < 10 then [digit_char n] else py_str_nat (n div 10) @ [digit_char (n mod 10)])"

declare py_str_nat.simps [simp del]

definition create_run :: "env \<Rightarrow> string \<Rightarrow> addr \<Rightarrow> world \<Rightarrow> string \<times> world" where
  "create_run E gid initial_state w =
     (let rid = ''run_'' @ py_str_nat (length (RUNS w) + 1);
          now = utcnow E (ticks w)
      in (rid,
          w\<lparr>RUNS := AList.update rid
                 \<lparr>id_run = rid, graph_id = gid, state = initial_state, log_run = [],
                  status = ''created'', created_at = now, updated_at = now\<rparr> (RUNS w),
            ticks := Suc (ticks w)\<rparr>))"

definition update_run ::
  "env \<Rightarrow> string \<Rightarrow> addr \<Rightarrow> execution_log_entry list \<Rightarrow> string \<Rightarrow> world \<Rightarrow> exn + world" where
  "update_run E rid st lg stat w =
     (case map_of (RUNS w) rid of
        None \<Rightarrow> Inl KeyError
      | Some r \<Rightarrow>
          Inr (w\<lparr>RUNS := AList.update rid
                     (r\<lparr>state := st, log_run := lg, status := stat,
                        updated_at := utcnow E (ticks w)\<rparr>) (RUNS w),
                 ticks := Suc (ticks w)\<rparr>))"

definition get_run :: "string \<Rightarrow> world \<Rightarrow> exn + run" where
  "get_run rid w = (case map_of (RUNS w) rid of None \<Rightarrow> Inl KeyError | Some r \<Rightarrow> Inr r)"

section \<open>executor.py\<close>

fun join :: "string \<Rightarrow> string list \<Rightarrow> string" where
  "join sep [] = []"
| "join sep [x] = x"
| "join sep (x # y # ys) = x @ sep @ join sep (y # ys)"

text \<open>\<^verbatim>\<open>_summarise_state\<close>.  \<^verbatim>\<open>cr.get(...)\<close> raises \<^verbatim>\<open>AttributeError\<close> when
  \<^verbatim>\<open>complexity_report\<close> is not a dictionary.\<close>

definition complexity_parts :: "env \<Rightarrow> heap \<Rightarrow> pydict \<Rightarrow> exn + string list" where
  "complexity_parts E h d =
     (case d ''complexity_report'' of
        None \<Rightarrow> Inr []
      | Some (PyDictRef a) \<Rightarrow>
          (case dicts h a of
             None \<Rightarrow> Inl AttributeError
           | Some cr \<Rightarrow>
               (let est = dict_get cr ''estimated_complexity'';
                    fn_count = dict_get cr ''function_count''
                in Inr ((if est \<noteq> PyNone then [''complexity='' @ py_format E h est] else [])
                      @ (if fn_count \<noteq> PyNone then [''functions='' @ py_format E h fn_count] else []))))
      | Some _ \<Rightarrow> Inl AttributeError)"

definition issues_parts :: "env \<Rightarrow> heap \<Rightarrow> pydict \<Rightarrow> string list" where
  "issues_parts E h d =
     (case d ''issues'' of
        Some (PyListRef a) \<Rightarrow>
          (case lists h a of
             Some xs \<Rightarrow> [''issues='' @ py_format E h (PyInt (int (length xs)))]
           | None \<Rightarrow> [])
      | _ \<Rightarrow> [])"

definition summarise_state :: "env \<Rightarrow> heap \<Rightarrow> pydict \<Rightarrow> exn + string" where
  "summarise_state E h d =
     (let parts = (case d ''quality_score'' of
                     Some v \<Rightarrow> [''quality_score='' @ py_format E h v] | None \<Rightarrow> [])
                @ (case d ''iteration'' of
                     Some v \<Rightarrow> [''iteration='' @ py_format E h v] | None \<Rightarrow> [])
                @ issues_parts E h d
      in case complexity_parts E h d of
           Inl e \<Rightarrow> Inl e
         | Inr cparts \<Rightarrow>
             (let s = join '', '' (parts @ cparts)
              in Inr (if s = [] then ''state updated'' else s)))"

text \<open>\<^verbatim>\<open>graph.nodes[current_node_id]\<close>: a key that is not in the dictionary raises
  \<^verbatim>\<open>KeyError\<close>, an unhashable key raises \<^verbatim>\<open>TypeError\<close>.\<close>

definition lookup_node :: "graph \<Rightarrow> pyval \<Rightarrow> exn + node_callable" where
  "lookup_node g cur =
     (case cur of
        PyStr s \<Rightarrow> (case nodes g s of None \<Rightarrow> Inl KeyError | Some f \<Rightarrow> Inr f)
      | PyDictRef a \<Rightarrow> Inl TypeError
      | PyListRef a \<Rightarrow> Inl TypeError
      | _ \<Rightarrow> Inl KeyError)"

text \<open>\<^verbatim>\<open>graph.edges.get(current_node_id)\<close>.\<close>

definition edges_get :: "graph \<Rightarrow> pyval \<Rightarrow> pyval" where
  "edges_get g cur =
     (case cur of
        PyStr s \<Rightarrow> (case edges g s of Some (Some t) \<Rightarrow> PyStr t | _ \<Rightarrow> PyNone)
      | _ \<Rightarrow> PyNone)"

text \<open>\<^verbatim>\<open>if run_id is not None: update_run(run_id, state, log, status)\<close>.\<close>

definition persist ::
  "env \<Rightarrow> string option \<Rightarrow> addr \<Rightarrow> execution_log_entry list \<Rightarrow> string \<Rightarrow> world \<Rightarrow> exn + world" where
  "persist E run_id st lg stat w =
     (case run_id of None \<Rightarrow> Inr w | Some rid \<Rightarrow> update_run E rid st lg stat w)"

text \<open>
  One pass through the body of the \<^verbatim>\<open>while\<close> loop (lines 48 to 78), \<open>stp\<close> being the
  step number after \<^verbatim>\<open>step += 1\<close>.  A node is typed to return a \<^verbatim>\<open>State\<close>; when what it
  returns is not a dictionary, \<^verbatim>\<open>"quality_score" in state\<close> raises \<^verbatim>\<open>TypeError\<close>.  The store
  keeps the reference \<open>st'\<close>, so the \<^verbatim>\<open>pop\<close> after \<^verbatim>\<open>update_run\<close> is seen through it.
  The store keeps a reference to the log list too; the list is appended to only right before
  \<^verbatim>\<open>update_run\<close> is called with it, so the list stored at the last update is the list as it is
  wherever the run can end, and the run record holds it as a value.
\<close>

datatype body_result =
    Raised world exn
  | Break world addr "execution_log_entry list"
  | Continue world pyval addr "execution_log_entry list"

definition loop_body ::
  "env \<Rightarrow> graph \<Rightarrow> string option \<Rightarrow> pyval \<Rightarrow> int \<Rightarrow> addr \<Rightarrow> execution_log_entry list \<Rightarrow> world
     \<Rightarrow> body_result" where
  "loop_body E g run_id cur stp st lg w =
     (case lookup_node g cur of
        Inl e \<Rightarrow> Raised (w\<lparr>trace := trace w @ [Unresolved cur e]\<rparr>) e
      | Inr node \<Rightarrow>
          (let start_time = perf_counter E (ticks w)
           in case node st (mem w) of
                (h1, Inl e) \<Rightarrow>
                  Raised (w\<lparr>mem := h1, ticks := Suc (ticks w),
                           trace := trace w @ [Failed cur e]\<rparr>) e
              | (h1, Inr st') \<Rightarrow>
                  (let duration = (perf_counter E (Suc (ticks w)) - start_time) * 1000;
                       w1 = w\<lparr>mem := h1, ticks := Suc (Suc (ticks w))\<rparr>
                   in case dicts h1 st' of
                        None \<Rightarrow> Raised (w1\<lparr>trace := trace w @ [Aborted cur TypeError]\<rparr>) TypeError
                      | Some d \<Rightarrow>
                          (case summarise_state E h1 d of
                             Inl e \<Rightarrow> Raised (w1\<lparr>trace := trace w @ [Aborted cur e]\<rparr>) e
                           | Inr s \<Rightarrow>
                               (let entry = \<lparr>step = stp, node_id = cur,
                                             duration_ms = duration, summary = s\<rparr>;
                                    lg' = lg @ [entry]
                                in case persist E run_id st' lg' ''running'' w1 of
                                     Inl e \<Rightarrow>
                                       Raised (w1\<lparr>trace := trace w @ [Aborted cur e]\<rparr>) e
                                   | Inr w2 \<Rightarrow>
                                       if py_truthy h1 (dict_get d ''_finished'')
                                       then Break
                                              (w2\<lparr>trace := trace w @
                                                   [Returned cur True (d ''_next_node'')]\<rparr>)
                                              st' lg'
                                       else (case dict_pop st' ''_next_node'' h1 of
                                               (next_node_override, h2) \<Rightarrow>
                                                 Continue
                                                   (w2\<lparr>mem := h2, trace := trace w @
                                                        [Returned cur False (d ''_next_node'')]\<rparr>)
                                                   (if next_node_override \<noteq> PyNone
                                                    then next_node_override
                                                    else edges_get g cur)
                                                   st' lg'))))))"

text \<open>The \<^verbatim>\<open>while ... else\<close> loop: the result is the final state, log and status.\<close>

function run_loop ::
  "env \<Rightarrow> graph \<Rightarrow> string option \<Rightarrow> pyval \<Rightarrow> int \<Rightarrow> addr \<Rightarrow> execution_log_entry list \<Rightarrow> world
     \<Rightarrow> world \<times> (exn + addr \<times> execution_log_entry list \<times> string)" where
  "run_loop E g run_id cur stp st lg w =
     (if cur \<noteq> PyNone \<and> stp < max_steps g then
        (case loop_body E g run_id cur (stp + 1) st lg w of
           Raised w' e \<Rightarrow> (w', Inl e)
         | Break w' st' lg' \<Rightarrow> (w', Inr (st', lg', ''completed''))
         | Continue w' cur' st' lg' \<Rightarrow> run_loop E g run_id cur' (stp + 1) st' lg' w')
      else (w, Inr (st, lg, if cur = PyNone then ''completed'' else ''max_steps_reached'')))"
  by pat_completeness auto

termination
  by (relation "measure (\<lambda>(E, g, run_id, cur, stp, st, lg, w). nat (max_steps g - stp))") auto

declare run_loop.simps [simp del]

text \<open>Lines 38 and 39: the working copy of the caller's state.\<close>

definition working_copy :: "addr \<Rightarrow> heap \<Rightarrow> exn + addr \<times> heap" where
  "working_copy initial_state h =
     (case dicts h initial_state of
        None \<Rightarrow> Inl TypeError
      | Some d \<Rightarrow>
          (case dict_copy d h of
             (st, h1) \<Rightarrow> Inr (st, dict_setdefault st ''iteration'' (PyInt 0) h1)))"

text \<open>\<^verbatim>\<open>run_graph\<close> with the status it ends with, which the source keeps in a local
  variable and hands to \<^verbatim>\<open>update_run\<close>.\<close>

definition run_graph_status ::
  "env \<Rightarrow> graph \<Rightarrow> addr \<Rightarrow> string option \<Rightarrow> world
     \<Rightarrow> world \<times> (exn + addr \<times> execution_log_entry list \<times> string)" where
  "run_graph_status E g initial_state run_id w =
     (case working_copy initial_state (mem w) of
        Inl e \<Rightarrow> (w, Inl e)
      | Inr (st, h1) \<Rightarrow>
          (case run_loop E g run_id (PyStr (start_node_id g)) 0 st [] (w\<lparr>mem := h1\<rparr>) of
             (w1, Inl e) \<Rightarrow> (w1, Inl e)
           | (w1, Inr (st', lg, stat)) \<Rightarrow>
               (case persist E run_id st' lg stat w1 of
                  Inl e \<Rightarrow> (w1, Inl e)
                | Inr w2 \<Rightarrow> (w2, Inr (st', lg, stat)))))"

definition run_graph ::
  "env \<Rightarrow> graph \<Rightarrow> addr \<Rightarrow> string option \<Rightarrow> world
     \<Rightarrow> world \<times> (exn + addr \<times> execution_log_entry list)" where
  "run_graph E g initial_state run_id w =
     (case run_graph_status E g initial_state run_id w of
        (w', Inl e) \<Rightarrow> (w', Inl e)
      | (w', Inr (st, lg, stat)) \<Rightarrow> (w', Inr (st, lg)))"

section \<open>Vocabulary for the statements about a run\<close>

text \<open>A pass finished the run when its node returned a state with a truthy
  \<^verbatim>\<open>_finished\<close>; it was routed when the node returned and \<^verbatim>\<open>_finished\<close> was not truthy.\<close>

fun ev_finished :: "event \<Rightarrow> bool" where
  "ev_finished (Returned n f x) = f"
| "ev_finished _ = False"

fun ev_routed :: "event \<Rightarrow> bool" where
  "ev_routed (Returned n f x) = (\<not> f)"
| "ev_routed _ = False"

fun ev_exn :: "event \<Rightarrow> exn option" where
  "ev_exn (Unresolved n e) = Some e"
| "ev_exn (Failed n e) = Some e"
| "ev_exn (Aborted n e) = Some e"
| "ev_exn (Returned n f x) = None"


text \<open>The \<^verbatim>\<open>_next_node\<close> override a pass saw: a value other than \<^verbatim>\<open>None\<close>.\<close>

fun ev_override :: "event \<Rightarrow> pyval option" where
  "ev_override (Returned n f (Some v)) = (if v = PyNone then None else Some v)"
| "ev_override _ = None"

text \<open>The node the executor turns to after a routed pass.\<close>

definition ev_next :: "graph \<Rightarrow> event \<Rightarrow> pyval" where
  "ev_next g e = (case ev_override e of Some v \<Rightarrow> v | None \<Rightarrow> edges_get g (ev_node e))"

text \<open>\<open>follows g cur es\<close>: the passes \<open>es\<close> are consecutive passes of a loop that starts
  at node \<open>cur\<close>: each pass is for the current node, which is not \<^verbatim>\<open>None\<close>, every pass but
  the last was routed, and the next current node is the one the routing chose.\<close>

fun follows :: "graph \<Rightarrow> pyval \<Rightarrow> event list \<Rightarrow> bool" where
  "follows g cur [] = True"
| "follows g cur [e] = (ev_node e = cur \<and> cur \<noteq> PyNone)"
| "follows g cur (e # e' # es) =
     (ev_node e = cur \<and> cur \<noteq> PyNone \<and> ev_routed e \<and> follows g (ev_next g e) (e' # es))"


text \<open>\<^verbatim>\<open>_summarise_state\<close> can build a summary of the dictionary \<open>d\<close>: its
  \<^verbatim>\<open>complexity_report\<close>, when present, is a dictionary.\<close>

definition summarisable :: "heap \<Rightarrow> pydict \<Rightarrow> bool" where
  "summarisable h d =
     (case d ''complexity_report'' of
        None \<Rightarrow> True
      | Some (PyDictRef a) \<Rightarrow> dicts h a \<noteq> None
      | Some _ \<Rightarrow> False)"

text \<open>The allocator's next address is not in use.\<close>

definition heap_fresh :: "heap \<Rightarrow> bool" where
  "heap_fresh h = (dicts h (next_addr h) = None)"

text \<open>A node leaves the dictionary at \<open>S\<close> alone: called on another state, it does not
  change the bindings of \<open>S\<close> and does not return \<open>S\<close>.\<close>

definition leaves_alone :: "addr \<Rightarrow> node_callable \<Rightarrow> bool" where
  "leaves_alone S f =
     (\<forall>st h. st \<noteq> S \<longrightarrow> dicts (fst (f st h)) S = dicts h S \<and> snd (f st h) \<noteq> Inr S)"

text \<open>\<^verbatim>\<open>update_run\<close> can be called: no run id was given, or it is a key of \<^verbatim>\<open>RUNS\<close>.\<close>

definition run_known :: "string option \<Rightarrow> world \<Rightarrow> bool" where
  "run_known run_id w = (case run_id of None \<Rightarrow> True | Some k \<Rightarrow> map_of (RUNS w) k \<noteq> None)"

section \<open>The passes of a run\<close>

text \<open>The world a pass ends with, however it ends.\<close>

fun body_world :: "body_result \<Rightarrow> world" where
  "body_world (Raised w e) = w"
| "body_world (Break w st lg) = w"
| "body_world (Continue w cur st lg) = w"

text \<open>
  The loop variables (\<^verbatim>\<open>current_node_id\<close>, \<^verbatim>\<open>step\<close>, \<^verbatim>\<open>state\<close>, \<^verbatim>\<open>log\<close>) and the world
  at the start of a pass through the loop body: what the pass, and the callable of its node,
  are applied to.
\<close>

record config =
  c_node :: pyval
  c_step :: int
  c_state :: addr
  c_log :: "execution_log_entry list"
  c_world :: world

text \<open>The configurations at the start of the passes of a loop, in order.  The recursion is
  that of \<open>run_loop\<close>.\<close>

function loop_configs ::
  "env \<Rightarrow> graph \<Rightarrow> string option \<Rightarrow> pyval \<Rightarrow> int \<Rightarrow> addr \<Rightarrow> execution_log_entry list \<Rightarrow> world
     \<Rightarrow> config list" where
  "loop_configs E g run_id cur stp st lg w =
     (if cur \<noteq> PyNone \<and> stp < max_steps g then
        \<lparr>c_node = cur, c_step = stp, c_state = st, c_log = lg, c_world = w\<rparr> #
        (case loop_body E g run_id cur (stp + 1) st lg w of
           Continue w' cur' st' lg' \<Rightarrow> loop_configs E g run_id cur' (stp + 1) st' lg' w'
         | _ \<Rightarrow> [])
      else [])"
  by pat_completeness auto

termination
  by (relation "measure (\<lambda>(E, g, run_id, cur, stp, st, lg, w). nat (max_steps g - stp))") auto

declare loop_configs.simps [simp del]

definition run_configs ::
  "env \<Rightarrow> graph \<Rightarrow> addr \<Rightarrow> string option \<Rightarrow> world \<Rightarrow> config list" where
  "run_configs E g initial_state run_id w =
     (case working_copy initial_state (mem w) of
        Inl e \<Rightarrow> []
      | Inr (st, h1) \<Rightarrow>
          loop_configs E g run_id (PyStr (start_node_id g)) 0 st [] (w\<lparr>mem := h1\<rparr>))"

text \<open>The end of a run whose loop ended with state \<open>st\<close>, log \<open>lg\<close> and status \<open>stat\<close>
  (lines 83 to 87): the last \<^verbatim>\<open>update_run\<close> and the return.\<close>

definition run_end ::
  "env \<Rightarrow> string option \<Rightarrow> world \<Rightarrow> addr \<Rightarrow> execution_log_entry list \<Rightarrow> string
     \<Rightarrow> world \<times> (exn + addr \<times> execution_log_entry list \<times> string)" where
  "run_end E run_id w st lg stat =
     (case persist E run_id st lg stat w of
        Inl e \<Rightarrow> (w, Inl e)
      | Inr w2 \<Rightarrow> (w2, Inr (st, lg, stat)))"

text \<open>The pass that starts in a configuration, and the call of a callable in it.\<close>

definition pass_from :: "env \<Rightarrow> graph \<Rightarrow> string option \<Rightarrow> config \<Rightarrow> body_result" where
  "pass_from E g run_id c =
     loop_body E g run_id (c_node c) (c_step c + 1) (c_state c) (c_log c) (c_world c)"

definition call_in :: "node_callable \<Rightarrow> config \<Rightarrow> heap \<times> (exn + addr)" where
  "call_in f c = f (c_state c) (mem (c_world c))"

text \<open>
  \<open>ev_reports e c\<close>: the record \<open>e\<close> of a pass tells what the call \<open>c\<close> of its node gave:
  the exception it raised, or the truthiness of \<^verbatim>\<open>_finished\<close> and the \<^verbatim>\<open>_next_node\<close> entry
  of the state it returned, read in the heap it left.
\<close>

fun ev_reports :: "event \<Rightarrow> heap \<times> (exn + addr) \<Rightarrow> bool" where
  "ev_reports (Unresolved n e) c = False"
| "ev_reports (Failed n e) (h, r) = (r = Inl e)"
| "ev_reports (Aborted n e) (h, r) = (case r of Inl x \<Rightarrow> False | Inr st' \<Rightarrow> True)"
| "ev_reports (Returned n f x) (h, r) =
     (case r of
        Inl e \<Rightarrow> False
      | Inr st' \<Rightarrow>
          (case dicts h st' of
             None \<Rightarrow> False
           | Some d \<Rightarrow> f = py_truthy h (dict_get d ''_finished'') \<and> x = d ''_next_node''))"

text \<open>The heap after a pass: the heap the call of its node left, with \<^verbatim>\<open>_next_node\<close> popped
  from the state the node returned when the pass was routed.\<close>

fun after_pass :: "event \<Rightarrow> heap \<times> (exn + addr) \<Rightarrow> heap" where
  "after_pass e (h, Inl x) = h"
| "after_pass e (h, Inr st') = (if ev_routed e then snd (dict_pop st' ''_next_node'' h) else h)"

text \<open>
  The pass that starts in \<open>c\<close> is quiet: its node is in the graph and returns a state with no
  truthy \<^verbatim>\<open>_finished\<close> and no \<^verbatim>\<open>_next_node\<close> other than \<^verbatim>\<open>None\<close>, of which a summary can
  be built.
\<close>

definition quiet_return :: "graph \<Rightarrow> config \<Rightarrow> bool" where
  "quiet_return g c =
     (case lookup_node g (c_node c) of
        Inl e \<Rightarrow> False
      | Inr f \<Rightarrow>
          (case call_in f c of
             (h', Inl e) \<Rightarrow> False
           | (h', Inr st') \<Rightarrow>
               (case dicts h' st' of
                  None \<Rightarrow> False
                | Some d \<Rightarrow>
                    \<not> py_truthy h' (dict_get d ''_finished'') \<and>
                    dict_get d ''_next_node'' = PyNone \<and> summarisable h' d)))"

section \<open>The life of the process\<close>

text \<open>
  \<^verbatim>\<open>RUNS\<close> is empty when the module is loaded, and the only code that touches it is
  \<^verbatim>\<open>create_run\<close> and, through \<^verbatim>\<open>run_graph\<close>, \<^verbatim>\<open>update_run\<close>.  The life of the process is a
  sequence of such calls; \<open>process\<close> gives the run ids that the \<^verbatim>\<open>create_run\<close> calls
  returned, in order.
\<close>

datatype call = CreateRun string addr | RunGraph graph addr "string option"

fun serve :: "env \<Rightarrow> call \<Rightarrow> world \<Rightarrow> string list \<times> world" where
  "serve E (CreateRun gid initial_state) w =
     (case create_run E gid initial_state w of (rid, w') \<Rightarrow> ([rid], w'))"
| "serve E (RunGraph g initial_state run_id) w = ([], fst (run_graph E g initial_state run_id w))"

fun process :: "env \<Rightarrow> call list \<Rightarrow> world \<Rightarrow> string list \<times> world" where
  "process E [] w = ([], w)"
| "process E (c # cs) w =
     (case serve E c w of
        (ids, w1) \<Rightarrow> (case process E cs w1 of (ids', w2) \<Rightarrow> (ids @ ids', w2)))"

text \<open>The keys of \<^verbatim>\<open>RUNS\<close> are \<^verbatim>\<open>run_1\<close>, ..., \<^verbatim>\<open>run_n\<close>, in the order of insertion.\<close>

definition runs_numbered :: "world \<Rightarrow> bool" where
  "runs_numbered w =
     (map fst (RUNS w) = map (\<lambda>i. ''run_'' @ py_str_nat i) [1..<Suc (length (RUNS w))])"

section \<open>Nodes and graphs of the scenarios\<close>

text \<open>\<^verbatim>\<open>state[k1] = v1; ...; return state\<close>: a node that stores the given keys in the state it
  is handed and returns that state.  With no keys it returns the state as it is.\<close>

definition assign :: "(string \<times> pyval) list \<Rightarrow> node_callable" where
  "assign kvs st h =
     (case dicts h st of
        None \<Rightarrow> (h, Inl TypeError)
      | Some d \<Rightarrow> (h\<lparr>dicts := (dicts h)(st \<mapsto> foldl (\<lambda>m (k, v). m(k \<mapsto> v)) d kvs)\<rparr>, Inr st))"

text \<open>A node that raises.\<close>

definition raising :: "exn \<Rightarrow> node_callable" where
  "raising e st h = (h, Inl e)"

text \<open>\<^verbatim>\<open>history = state.get(k, []); history.append(v); state[k] = history; return state\<close>, as
  \<^verbatim>\<open>evaluate_quality\<close> keeps its score history: the list object is changed in place.\<close>

definition append_to :: "string \<Rightarrow> pyval \<Rightarrow> node_callable" where
  "append_to k v st h =
     (case dicts h st of
        None \<Rightarrow> (h, Inl TypeError)
      | Some d \<Rightarrow>
          (case d k of
             Some (PyListRef a) \<Rightarrow>
               (case lists h a of
                  Some xs \<Rightarrow> (h\<lparr>lists := (lists h)(a \<mapsto> xs @ [v])\<rparr>, Inr st)
                | None \<Rightarrow> (h, Inl AttributeError))
           | Some _ \<Rightarrow> (h, Inl AttributeError)
           | None \<Rightarrow>
               (h\<lparr>lists := (lists h)(next_addr h \<mapsto> [v]),
                  dicts := (dicts h)(st \<mapsto> d(k \<mapsto> PyListRef (next_addr h))),
                  next_addr := Suc (next_addr h)\<rparr>, Inr st)))"

definition str_int :: "int \<Rightarrow> string" where
  "str_int i = (if 0 \<le> i then py_str_nat (nat i) else ''-'' @ py_str_nat (nat (- i)))"

text \<open>An environment for the scenarios: the \<open>n\<close>-th clock reading is \<open>n\<close>, values are
  formatted as \<^verbatim>\<open>str\<close> does for the immutable ones.\<close>

definition test_env :: env where
  "test_env =
     \<lparr>utcnow = (\<lambda>n. ''T'' @ py_str_nat n),
      perf_counter = (\<lambda>n. real n),
      py_format = (\<lambda>h v. case v of
                      PyNone \<Rightarrow> ''None''
                    | PyBool b \<Rightarrow> (if b then ''True'' else ''False'')
                    | PyInt i \<Rightarrow> str_int i
                    | PyStr s \<Rightarrow> s
                    | _ \<Rightarrow> ''<object>'')\<rparr>"

text \<open>A process that has just started: \<^verbatim>\<open>RUNS\<close> is empty; the caller's initial state, with
  the bindings \<open>d\<close>, is the dictionary at address 0, and \<open>xs\<close> is the list at address 0.\<close>

definition start_world :: "pydict \<Rightarrow> pyval list \<Rightarrow> world" where
  "start_world d xs =
     \<lparr>mem = \<lparr>dicts = [0 \<mapsto> d], lists = [0 \<mapsto> xs], next_addr = 1\<rparr>,
      RUNS = [], ticks = 0, trace = []\<rparr>"

text \<open>Scenario A of the specification: \<^verbatim>\<open>a\<close> adds \<^verbatim>\<open>x = 1\<close>, \<^verbatim>\<open>b\<close> sets \<^verbatim>\<open>_finished\<close>.\<close>

definition scenario_A :: graph where
  "scenario_A =
     \<lparr>id_graph = ''A'',
      nodes = [''a'' \<mapsto> assign [(''x'', PyInt 1)], ''b'' \<mapsto> assign [(''_finished'', PyBool True)]],
      edges = [''a'' \<mapsto> Some ''b'', ''b'' \<mapsto> None],
      start_node_id = ''a'', max_steps = 10\<rparr>"

text \<open>Scenario B of the specification: the single node \<^verbatim>\<open>loop\<close> always sets
  \<^verbatim>\<open>_next_node = "loop"\<close> and never sets \<^verbatim>\<open>_finished\<close>.\<close>

definition scenario_B :: graph where
  "scenario_B =
     \<lparr>id_graph = ''B'',
      nodes = [''loop'' \<mapsto> assign [(''_next_node'', PyStr ''loop'')]],
      edges = [''loop'' \<mapsto> None],
      start_node_id = ''loop'', max_steps = 3\<rparr>"





text \<open>A single node that appends a score to the list under \<^verbatim>\<open>score_history\<close>.\<close>

definition history_graph :: graph where
  "history_graph =
     \<lparr>id_graph = ''history'',
      nodes = [''evaluate'' \<mapsto> append_to ''score_history'' (PyInt 7)],
      edges = [''evaluate'' \<mapsto> None],
      start_node_id = ''evaluate'', max_steps = 10\<rparr>"

text \<open>Node \<^verbatim>\<open>a\<close> returns, node \<^verbatim>\<open>b\<close> raises.\<close>

definition failing_graph :: graph where
  "failing_graph =
     \<lparr>id_graph = ''failing'',
      nodes = [''a'' \<mapsto> assign [(''x'', PyInt 1)], ''b'' \<mapsto> raising (NodeError ''boom'')],
      edges = [''a'' \<mapsto> Some ''b'', ''b'' \<mapsto> None],
      start_node_id = ''a'', max_steps = 10\<rparr>"

text \<open>Node \<^verbatim>\<open>a\<close> sets \<^verbatim>\<open>_finished\<close> although its edge leads on to \<^verbatim>\<open>b\<close>.\<close>

definition finish_graph :: graph where
  "finish_graph =
     \<lparr>id_graph = ''finish'',
      nodes = [''a'' \<mapsto> assign [(''_finished'', PyBool True)], ''b'' \<mapsto> assign [(''x'', PyInt 1)]],
      edges = [''a'' \<mapsto> Some ''b'', ''b'' \<mapsto> None],
      start_node_id = ''a'', max_steps = 10\<rparr>"

text \<open>Node \<^verbatim>\<open>a\<close> sets \<^verbatim>\<open>_finished\<close> and a \<^verbatim>\<open>complexity_report\<close> that is not a dictionary.\<close>

definition bad_report_graph :: graph where
  "bad_report_graph =
     \<lparr>id_graph = ''bad_report'',
      nodes = [''a'' \<mapsto> assign [(''_finished'', PyBool True), (''complexity_report'', PyInt 5)]],
      edges = [''a'' \<mapsto> None],
      start_node_id = ''a'', max_steps = 10\<rparr>"

lemmas exec_simps =
  run_graph_def run_graph_status_def working_copy_def dict_copy_def dict_setdefault_def
  run_loop.simps loop_body_def lookup_node_def edges_get_def persist_def update_run_def
  create_run_def summarise_state_def complexity_parts_def issues_parts_def
  py_truthy_def dict_get_def dict_pop_def Let_def
  assign_def raising_def append_to_def test_env_def start_world_def str_int_def
  py_str_nat.simps digit_char_def

lemmas config_simps = loop_configs.simps run_configs_def pass_from_def call_in_def run_end_def

section \<open>Facts about the store and the loop body\<close>

lemma map_of_Some_key: "map_of al k = Some v \<Longrightarrow> k \<in> fst ` set al"
  by (metis domI dom_map_of_conv_image_fst)

lemma persist_frame:
  assumes "persist E run_id st lg stat w = Inr w'"
  shows "trace w' = trace w" "mem w' = mem w" "map fst (RUNS w') = map fst (RUNS w)"
  using assms
  by (auto simp: persist_def update_run_def AList.update_keys map_of_Some_key
           split: option.splits)

lemma loop_body_cases [case_names unresolved failed notdict nosummary nopersist break continue]:
  fixes E g run_id cur stp st lg w
  defines "dur \<equiv> (perf_counter E (Suc (ticks w)) - perf_counter E (ticks w)) * 1000"
  obtains
    e where "lookup_node g cur = Inl e"
      "loop_body E g run_id cur stp st lg w = Raised (w\<lparr>trace := trace w @ [Unresolved cur e]\<rparr>) e"
  | node h1 e where "lookup_node g cur = Inr node" "node st (mem w) = (h1, Inl e)"
      "loop_body E g run_id cur stp st lg w =
         Raised (w\<lparr>mem := h1, ticks := Suc (ticks w), trace := trace w @ [Failed cur e]\<rparr>) e"
  | node h1 st' where "lookup_node g cur = Inr node" "node st (mem w) = (h1, Inr st')"
      "dicts h1 st' = None"
      "loop_body E g run_id cur stp st lg w =
         Raised (w\<lparr>mem := h1, ticks := Suc (Suc (ticks w)),
                  trace := trace w @ [Aborted cur TypeError]\<rparr>) TypeError"
  | node h1 st' d e where "lookup_node g cur = Inr node" "node st (mem w) = (h1, Inr st')"
      "dicts h1 st' = Some d" "summarise_state E h1 d = Inl e"
      "loop_body E g run_id cur stp st lg w =
         Raised (w\<lparr>mem := h1, ticks := Suc (Suc (ticks w)),
                  trace := trace w @ [Aborted cur e]\<rparr>) e"
  | node h1 st' d s e where "lookup_node g cur = Inr node" "node st (mem w) = (h1, Inr st')"
      "dicts h1 st' = Some d" "summarise_state E h1 d = Inr s"
      "persist E run_id st'
         (lg @ [\<lparr>step = stp, node_id = cur, duration_ms = dur, summary = s\<rparr>]) ''running''
         (w\<lparr>mem := h1, ticks := Suc (Suc (ticks w))\<rparr>) = Inl e"
      "loop_body E g run_id cur stp st lg w =
         Raised (w\<lparr>mem := h1, ticks := Suc (Suc (ticks w)),
                  trace := trace w @ [Aborted cur e]\<rparr>) e"
  | node h1 st' d s w2 where "lookup_node g cur = Inr node" "node st (mem w) = (h1, Inr st')"
      "dicts h1 st' = Some d" "summarise_state E h1 d = Inr s"
      "persist E run_id st'
         (lg @ [\<lparr>step = stp, node_id = cur, duration_ms = dur, summary = s\<rparr>]) ''running''
         (w\<lparr>mem := h1, ticks := Suc (Suc (ticks w))\<rparr>) = Inr w2"
      "py_truthy h1 (dict_get d ''_finished'')"
      "loop_body E g run_id cur stp st lg w =
         Break (w2\<lparr>trace := trace w @ [Returned cur True (d ''_next_node'')]\<rparr>) st'
           (lg @ [\<lparr>step = stp, node_id = cur, duration_ms = dur, summary = s\<rparr>])"
  | node h1 st' d s w2 where "lookup_node g cur = Inr node" "node st (mem w) = (h1, Inr st')"
      "dicts h1 st' = Some d" "summarise_state E h1 d = Inr s"
      "persist E run_id st'
         (lg @ [\<lparr>step = stp, node_id = cur, duration_ms = dur, summary = s\<rparr>]) ''running''
         (w\<lparr>mem := h1, ticks := Suc (Suc (ticks w))\<rparr>) = Inr w2"
      "\<not> py_truthy h1 (dict_get d ''_finished'')"
      "loop_body E g run_id cur stp st lg w =
         Continue (w2\<lparr>mem := h1\<lparr>dicts := (dicts h1)(st' \<mapsto> d(''_next_node'' := None))\<rparr>,
                     trace := trace w @ [Returned cur False (d ''_next_node'')]\<rparr>)
           (if dict_get d ''_next_node'' \<noteq> PyNone then dict_get d ''_next_node''
            else edges_get g cur)
           st'
           (lg @ [\<lparr>step = stp, node_id = cur, duration_ms = dur, summary = s\<rparr>])"
proof (cases "lookup_node g cur")
  case (Inl e)
  then show ?thesis using that(1) by (simp add: loop_body_def)
next
  case (Inr node)
  note n = this
  obtain h1 r where c: "node st (mem w) = (h1, r)" by (cases "node st (mem w)")
  show ?thesis
  proof (cases r)
    case (Inl e)
    then show ?thesis using that(2)[OF n] c n by (simp add: loop_body_def)
  next
    case (Inr st')
    note r = this
    show ?thesis
    proof (cases "dicts h1 st'")
      case None
      then show ?thesis using that(3)[OF n] c n r by (simp add: loop_body_def)
    next
      case (Some d)
      note d = this
      show ?thesis
      proof (cases "summarise_state E h1 d")
        case (Inl e)
        then show ?thesis using that(4)[OF n] c n r d by (simp add: loop_body_def)
      next
        case (Inr s)
        note s = this
        let ?lg = "lg @ [\<lparr>step = stp, node_id = cur, duration_ms = dur, summary = s\<rparr>]"
        show ?thesis
        proof (cases "persist E run_id st' ?lg ''running'' (w\<lparr>mem := h1, ticks := Suc (Suc (ticks w))\<rparr>)")
          case (Inl e)
          then show ?thesis using that(5)[OF n] c n r d s
            by (simp add: loop_body_def dur_def)
        next
          case (Inr w2)
          note p = this
          show ?thesis
          proof (cases "py_truthy h1 (dict_get d ''_finished'')")
            case True
            then show ?thesis using that(6)[OF n] c n r d s p
              by (simp add: loop_body_def dur_def)
          next
            case False
            then show ?thesis using that(7)[OF n] c n r d s p
              by (simp add: loop_body_def dur_def dict_pop_def)
          qed
        qed
      qed
    qed
  qed
qed

section \<open>Facts about the loop\<close>

lemma run_loop_stop:
  "\<not> (cur \<noteq> PyNone \<and> stp < max_steps g) \<Longrightarrow>
   run_loop E g run_id cur stp st lg w =
     (w, Inr (st, lg, if cur = PyNone then ''completed'' else ''max_steps_reached''))"
  by (subst run_loop.simps) auto

lemma run_loop_Raised:
  "cur \<noteq> PyNone \<Longrightarrow> stp < max_steps g \<Longrightarrow>
   loop_body E g run_id cur (stp + 1) st lg w = Raised w1 e \<Longrightarrow>
   run_loop E g run_id cur stp st lg w = (w1, Inl e)"
  by (subst run_loop.simps) simp

lemma run_loop_Break:
  "cur \<noteq> PyNone \<Longrightarrow> stp < max_steps g \<Longrightarrow>
   loop_body E g run_id cur (stp + 1) st lg w = Break w1 st' lg' \<Longrightarrow>
   run_loop E g run_id cur stp st lg w = (w1, Inr (st', lg', ''completed''))"
  by (subst run_loop.simps) simp

lemma run_loop_Continue:
  "cur \<noteq> PyNone \<Longrightarrow> stp < max_steps g \<Longrightarrow>
   loop_body E g run_id cur (stp + 1) st lg w = Continue w1 cur' st' lg' \<Longrightarrow>
   run_loop E g run_id cur stp st lg w = run_loop E g run_id cur' (stp + 1) st' lg' w1"
  by (subst run_loop.simps) simp

lemma ev_next_Returned:
  "ev_next g (Returned n f x) =
     (case x of None \<Rightarrow> edges_get g n | Some v \<Rightarrow> if v = PyNone then edges_get g n else v)"
  by (simp add: ev_next_def split: option.splits)

lemma body_Raised_trace:
  assumes "loop_body E g run_id cur stp st lg w = Raised w1 e"
  shows "\<exists>ev. trace w1 = trace w @ [ev] \<and> ev_node ev = cur \<and> ev_exn ev = Some e"
  using assms by (cases rule: loop_body_cases[of g cur E run_id stp st lg w]) auto

lemma body_Break_trace:
  assumes "loop_body E g run_id cur stp st lg w = Break w1 st' lg'"
  shows "\<exists>x. trace w1 = trace w @ [Returned cur True x]"
  using assms by (cases rule: loop_body_cases[of g cur E run_id stp st lg w]) auto

lemma body_Continue_trace:
  assumes "loop_body E g run_id cur stp st lg w = Continue w1 cur' st' lg'"
  shows "\<exists>x. trace w1 = trace w @ [Returned cur False x] \<and> cur' = ev_next g (Returned cur False x)"
proof (cases rule: loop_body_cases[of g cur E run_id stp st lg w])
  case (continue node h1 st'' d s w2)
  with assms have "trace w1 = trace w @ [Returned cur False (d ''_next_node'')]"
    and "cur' = (if dict_get d ''_next_node'' \<noteq> PyNone then dict_get d ''_next_node''
                 else edges_get g cur)" by auto
  then show ?thesis
    by (intro exI[of _ "d ''_next_node''"]) (auto simp: ev_next_Returned dict_get_def split: option.splits)
qed (use assms in auto)

lemma follows_Cons:
  "follows g cur (e # es) =
     (ev_node e = cur \<and> cur \<noteq> PyNone \<and> (es = [] \<or> (ev_routed e \<and> follows g (ev_next g e) es)))"
  by (cases es) auto

text \<open>Every pass appends one entry to the record of passes; the passes of a loop follow
  one another as the routing says, and there are no more of them than steps left.\<close>

lemma run_loop_trace:
  "run_loop E g run_id cur stp st lg w = (w', r) \<Longrightarrow>
   \<exists>new. trace w' = trace w @ new \<and> follows g cur new \<and> length new \<le> nat (max_steps g - stp)"
proof (induction E g run_id cur stp st lg w rule: run_loop.induct)
  case (1 E g run_id cur stp st lg w)
  show ?case
  proof (cases "cur \<noteq> PyNone \<and> stp < max_steps g")
    case False
    with "1.prems" show ?thesis by (simp add: run_loop_stop)
  next
    case True
    then have c: "cur \<noteq> PyNone" "stp < max_steps g" by auto
    have pos: "nat (max_steps g - stp) = Suc (nat (max_steps g - (stp + 1)))" using c by simp
    show ?thesis
    proof (cases "loop_body E g run_id cur (stp + 1) st lg w")
      case (Raised w1 e)
      from body_Raised_trace[OF this] run_loop_Raised[OF c this] "1.prems" pos c(1)
      show ?thesis by auto
    next
      case (Break w1 st' lg')
      from body_Break_trace[OF this] run_loop_Break[OF c this] "1.prems" pos c(1)
      show ?thesis by auto
    next
      case (Continue w1 cur' st' lg')
      from body_Continue_trace[OF this] obtain x where
        x: "trace w1 = trace w @ [Returned cur False x]" "cur' = ev_next g (Returned cur False x)"
        by blast
      from run_loop_Continue[OF c Continue] "1.prems"
      have "run_loop E g run_id cur' (stp + 1) st' lg' w1 = (w', r)" by simp
      from "1.IH"[OF True Continue this] obtain new where
        n: "trace w' = trace w1 @ new" "follows g cur' new" "length new \<le> nat (max_steps g - (stp + 1))"
        by blast
      have "trace w' = trace w @ (Returned cur False x # new)" using n x by simp
      moreover have "follows g cur (Returned cur False x # new)"
        using n x c(1) by (simp add: follows_Cons)
      moreover have "length (Returned cur False x # new) \<le> nat (max_steps g - stp)"
        using n pos by simp
      ultimately show ?thesis by blast
    qed
  qed
qed

lemma run_graph_status_cases [consumes 1, case_names nocopy raised nopersist returned]:
  assumes "run_graph_status E g S run_id w = (w', r)"
  obtains
    e where "working_copy S (mem w) = Inl e" "w' = w" "r = Inl e"
  | st h1 e where "working_copy S (mem w) = Inr (st, h1)"
      "run_loop E g run_id (PyStr (start_node_id g)) 0 st [] (w\<lparr>mem := h1\<rparr>) = (w', Inl e)"
      "r = Inl e"
  | st h1 st' lg stat e where "working_copy S (mem w) = Inr (st, h1)"
      "run_loop E g run_id (PyStr (start_node_id g)) 0 st [] (w\<lparr>mem := h1\<rparr>) = (w', Inr (st', lg, stat))"
      "persist E run_id st' lg stat w' = Inl e" "r = Inl e"
  | st h1 w1 st' lg stat where "working_copy S (mem w) = Inr (st, h1)"
      "run_loop E g run_id (PyStr (start_node_id g)) 0 st [] (w\<lparr>mem := h1\<rparr>) = (w1, Inr (st', lg, stat))"
      "persist E run_id st' lg stat w1 = Inr w'" "r = Inr (st', lg, stat)"
  using assms
  by (auto simp: run_graph_status_def split: sum.splits prod.splits)

lemma run_graph_status_trace:
  assumes "run_graph_status E g S run_id w = (w', r)"
  shows "\<exists>new. trace w' = trace w @ new \<and> follows g (PyStr (start_node_id g)) new
            \<and> length new \<le> nat (max_steps g)"
  using assms
proof (cases rule: run_graph_status_cases)
  case (nocopy e)
  then show ?thesis by simp
next
  case (raised st h1 e)
  from run_loop_trace[OF raised(2)] show ?thesis by simp
next
  case (nopersist st h1 st' lg stat e)
  from run_loop_trace[OF nopersist(2)] show ?thesis by simp
next
  case (returned st h1 w1 st' lg stat)
  from run_loop_trace[OF returned(2)] persist_frame(1)[OF returned(3)] show ?thesis by simp
qed

text \<open>How a loop ends, read off the passes \<open>new\<close> it added to the record.\<close>

lemma run_loop_outcome:
  "run_loop E g run_id cur stp st lg w = (w', r) \<Longrightarrow> trace w' = trace w @ new \<Longrightarrow>
   (case r of
      Inl e \<Rightarrow> new \<noteq> [] \<and> ev_exn (last new) = Some e
    | Inr (st', lg', stat) \<Rightarrow>
        (if new \<noteq> [] \<and> ev_finished (last new) then stat = ''completed''
         else (new = [] \<or> ev_routed (last new)) \<and>
              (if (if new = [] then cur else ev_next g (last new)) = PyNone
               then stat = ''completed''
               else stat = ''max_steps_reached'' \<and> max_steps g \<le> stp + int (length new))))"
proof (induction E g run_id cur stp st lg w arbitrary: new rule: run_loop.induct)
  case (1 E g run_id cur stp st lg w)
  show ?case
  proof (cases "cur \<noteq> PyNone \<and> stp < max_steps g")
    case False
    with "1.prems" show ?thesis by (auto simp: run_loop_stop)
  next
    case True
    then have c: "cur \<noteq> PyNone" "stp < max_steps g" by auto
    show ?thesis
    proof (cases "loop_body E g run_id cur (stp + 1) st lg w")
      case (Raised w1 e)
      from body_Raised_trace[OF this] run_loop_Raised[OF c this] "1.prems"
      show ?thesis by auto
    next
      case (Break w1 st' lg')
      from body_Break_trace[OF this] run_loop_Break[OF c this] "1.prems"
      show ?thesis by auto
    next
      case (Continue w1 cur' st' lg')
      from body_Continue_trace[OF this] obtain x where
        x: "trace w1 = trace w @ [Returned cur False x]" "cur' = ev_next g (Returned cur False x)"
        by blast
      from run_loop_Continue[OF c Continue] "1.prems"
      have rl: "run_loop E g run_id cur' (stp + 1) st' lg' w1 = (w', r)" by simp
      from run_loop_trace[OF rl] obtain new' where n': "trace w' = trace w1 @ new'" by blast
      with x "1.prems" have new: "new = Returned cur False x # new'" by simp
      have l: "last new = (if new' = [] then Returned cur False x else last new')"
        using new by simp
      from "1.IH"[OF True Continue rl n'] new l x(2)
      show ?thesis
        by (cases r) (auto split: if_splits)
    qed
  qed
qed




lemma persist_cases [case_names none unknown known]:
  obtains "run_id = None" "persist E run_id st lg stat w = Inr w"
  | k where "run_id = Some k" "map_of (RUNS w) k = None" "persist E run_id st lg stat w = Inl KeyError"
  | k r0 where "run_id = Some k" "map_of (RUNS w) k = Some r0"
      "persist E run_id st lg stat w =
         Inr (w\<lparr>RUNS := AList.update k
                   (r0\<lparr>state := st, log_run := lg, status := stat,
                       updated_at := utcnow E (ticks w)\<rparr>) (RUNS w),
                ticks := Suc (ticks w)\<rparr>)"
  by (cases run_id; cases "map_of (RUNS w) (the run_id)")
     (auto simp: persist_def update_run_def)

lemma persist_Inl:
  "persist E run_id st lg stat w = Inl e \<Longrightarrow>
   e = KeyError \<and> (\<exists>k. run_id = Some k \<and> map_of (RUNS w) k = None)"
  by (cases rule: persist_cases[of run_id E st lg stat w]) auto

lemma persist_known:
  "persist E (Some k) st lg stat w = Inr w' \<Longrightarrow>
   \<exists>r0 r1. map_of (RUNS w) k = Some r0 \<and> map_of (RUNS w') k = Some r1 \<and>
     status r1 = stat \<and> state r1 = st \<and> log_run r1 = lg \<and>
     id_run r1 = id_run r0 \<and> graph_id r1 = graph_id r0 \<and> created_at r1 = created_at r0"
  by (cases rule: persist_cases[of "Some k" E st lg stat w]) (auto simp: update_conv')

lemma persist_None: "persist E None st lg stat w = Inr w"
  by (simp add: persist_def)

lemma persist_other:
  "persist E run_id st lg stat w = Inr w' \<Longrightarrow> run_id \<noteq> Some k \<Longrightarrow>
   map_of (RUNS w') k = map_of (RUNS w) k"
  by (cases rule: persist_cases[of run_id E st lg stat w]) (auto simp: update_conv')

lemma keys_map_of_None: "map fst al = map fst al' \<Longrightarrow> map_of al k = None \<longleftrightarrow> map_of al' k = None"
  by (metis list.set_map map_of_eq_None_iff)

lemma body_Raised_store:
  assumes "loop_body E g run_id cur stp st lg w = Raised w1 e"
  shows "RUNS w1 = RUNS w"
  using assms by (cases rule: loop_body_cases[of g cur E run_id stp st lg w]) auto

lemma body_Returned_store:
  assumes "loop_body E g run_id cur stp st lg w = Break w1 st' lg' \<or>
           loop_body E g run_id cur stp st lg w = Continue w1 cur' st' lg'"
  shows "map fst (RUNS w1) = map fst (RUNS w)"
    and "run_id \<noteq> Some k \<Longrightarrow> map_of (RUNS w1) k = map_of (RUNS w) k"
    and "run_id = Some k \<Longrightarrow>
         \<exists>r0 r1. map_of (RUNS w) k = Some r0 \<and> map_of (RUNS w1) k = Some r1 \<and>
           status r1 = ''running'' \<and> state r1 = st' \<and> log_run r1 = lg'"
proof -
  show "map fst (RUNS w1) = map fst (RUNS w)"
    using assms
    by (cases rule: loop_body_cases[of g cur E run_id stp st lg w])
       (auto dest: persist_frame(3))
  show "run_id \<noteq> Some k \<Longrightarrow> map_of (RUNS w1) k = map_of (RUNS w) k"
    using assms
    by (cases rule: loop_body_cases[of g cur E run_id stp st lg w])
       (auto dest: persist_other[where k = k])
  show "run_id = Some k \<Longrightarrow>
         \<exists>r0 r1. map_of (RUNS w) k = Some r0 \<and> map_of (RUNS w1) k = Some r1 \<and>
           status r1 = ''running'' \<and> state r1 = st' \<and> log_run r1 = lg'"
    using assms
    by (cases rule: loop_body_cases[of g cur E run_id stp st lg w])
       (auto dest!: persist_known)
qed



text \<open>The keys of \<^verbatim>\<open>RUNS\<close> never change in a loop, and runs other than the loop's own
  are left as they were.\<close>

lemma run_loop_keys:
  "run_loop E g run_id cur stp st lg w = (w', r) \<Longrightarrow> map fst (RUNS w') = map fst (RUNS w)"
proof (induction E g run_id cur stp st lg w rule: run_loop.induct)
  case (1 E g run_id cur stp st lg w)
  show ?case
  proof (cases "cur \<noteq> PyNone \<and> stp < max_steps g")
    case False
    with "1.prems" show ?thesis by (auto simp: run_loop_stop)
  next
    case True
    then have c: "cur \<noteq> PyNone" "stp < max_steps g" by auto
    show ?thesis
    proof (cases "loop_body E g run_id cur (stp + 1) st lg w")
      case (Raised w1 e)
      from body_Raised_store[OF this] run_loop_Raised[OF c this] "1.prems"
      show ?thesis by auto
    next
      case (Break w1 st1 lg1)
      from body_Returned_store(1)[of E g run_id cur "stp + 1" st lg w w1 st1 lg1] this
        run_loop_Break[OF c this] "1.prems"
      show ?thesis by auto
    next
      case (Continue w1 cur' st1 lg1)
      from run_loop_Continue[OF c Continue] "1.prems"
      have rl: "run_loop E g run_id cur' (stp + 1) st1 lg1 w1 = (w', r)" by simp
      from "1.IH"[OF True Continue rl]
        body_Returned_store(1)[of E g run_id cur "stp + 1" st lg w w1 st1 lg1 cur'] Continue
      show ?thesis by simp
    qed
  qed
qed

lemma run_loop_other_runs:
  "run_loop E g run_id cur stp st lg w = (w', r) \<Longrightarrow> run_id \<noteq> Some k \<Longrightarrow>
   map_of (RUNS w') k = map_of (RUNS w) k"
proof (induction E g run_id cur stp st lg w rule: run_loop.induct)
  case (1 E g run_id cur stp st lg w)
  show ?case
  proof (cases "cur \<noteq> PyNone \<and> stp < max_steps g")
    case False
    with "1.prems" show ?thesis by (auto simp: run_loop_stop)
  next
    case True
    then have c: "cur \<noteq> PyNone" "stp < max_steps g" by auto
    show ?thesis
    proof (cases "loop_body E g run_id cur (stp + 1) st lg w")
      case (Raised w1 e)
      from body_Raised_store[OF this] run_loop_Raised[OF c this] "1.prems"
      show ?thesis by auto
    next
      case (Break w1 st1 lg1)
      from body_Returned_store(2)[of E g run_id cur "stp + 1" st lg w w1 st1 lg1 _ k] this
        run_loop_Break[OF c this] "1.prems"
      show ?thesis by auto
    next
      case (Continue w1 cur' st1 lg1)
      from run_loop_Continue[OF c Continue] "1.prems"
      have rl: "run_loop E g run_id cur' (stp + 1) st1 lg1 w1 = (w', r)" by simp
      from "1.IH"[OF True Continue rl "1.prems"(2)]
        body_Returned_store(2)[of E g run_id cur "stp + 1" st lg w w1 st1 lg1 cur' k] Continue
        "1.prems"(2)
      show ?thesis by simp
    qed
  qed
qed

text \<open>The stored status of the loop's own run: \<^verbatim>\<open>running\<close> as soon as one pass got as far as
  \<^verbatim>\<open>update_run\<close>, untouched before.\<close>

lemma run_loop_status:
  "run_loop E g run_id cur stp st lg w = (w', r) \<Longrightarrow> trace w' = trace w @ new \<Longrightarrow>
   run_id = Some k \<Longrightarrow> map_of (RUNS w) k = Some r0 \<Longrightarrow>
   \<exists>r1. map_of (RUNS w') k = Some r1 \<and>
        status r1 = (if new = [] \<or> ev_exn (hd new) \<noteq> None then status r0 else ''running'')"
proof (induction E g run_id cur stp st lg w arbitrary: new r0 rule: run_loop.induct)
  case (1 E g run_id cur stp st lg w)
  show ?case
  proof (cases "cur \<noteq> PyNone \<and> stp < max_steps g")
    case False
    with "1.prems" show ?thesis by (auto simp: run_loop_stop)
  next
    case True
    then have c: "cur \<noteq> PyNone" "stp < max_steps g" by auto
    show ?thesis
    proof (cases "loop_body E g run_id cur (stp + 1) st lg w")
      case (Raised w1 e)
      from body_Raised_store[OF this] body_Raised_trace[OF this] run_loop_Raised[OF c this] "1.prems"
      show ?thesis by auto
    next
      case (Break w1 st1 lg1)
      from body_Returned_store(3)[of E g run_id cur "stp + 1" st lg w w1 st1 lg1 _ k] this
        body_Break_trace[OF this] run_loop_Break[OF c this] "1.prems"
      show ?thesis by auto
    next
      case (Continue w1 cur' st1 lg1)
      from body_Continue_trace[OF this] obtain x where
        x: "trace w1 = trace w @ [Returned cur False x]" by blast
      from run_loop_Continue[OF c Continue] "1.prems"
      have rl: "run_loop E g run_id cur' (stp + 1) st1 lg1 w1 = (w', r)" by simp
      from run_loop_trace[OF rl] obtain new' where n': "trace w' = trace w1 @ new'" by blast
      with x "1.prems" have new: "new = Returned cur False x # new'" by simp
      from body_Returned_store(3)[of E g run_id cur "stp + 1" st lg w w1 st1 lg1 cur' k] Continue
        "1.prems"(3)
      obtain r1 where r1: "map_of (RUNS w1) k = Some r1" "status r1 = ''running''" by auto
      from "1.IH"[OF True Continue rl n' "1.prems"(3) r1(1)] r1(2) new
      show ?thesis by auto
    qed
  qed
qed



section \<open>Facts about a whole run\<close>

lemma follows_nth:
  "follows g cur new \<Longrightarrow> Suc i < length new \<Longrightarrow>
   ev_routed (new ! i) \<and> ev_node (new ! Suc i) = ev_next g (new ! i)"
proof (induction g cur new arbitrary: i rule: follows.induct)
  case (3 g cur e e' es)
  then show ?case by (cases i) (auto simp: follows_Cons)
qed auto


lemma follows_last:
  "follows g cur new \<Longrightarrow> i < length new \<Longrightarrow> \<not> ev_routed (new ! i) \<Longrightarrow> Suc i = length new"
  using follows_nth[of g cur new i] by (cases "Suc i < length new") auto



lemma working_copy_cases [case_names nodict copied]:
  obtains "dicts h S = None" "working_copy S h = Inl TypeError"
  | d where "dicts h S = Some d"
      "working_copy S h =
         Inr (next_addr h,
              h\<lparr>dicts := (dicts h)(next_addr h \<mapsto>
                    (if d ''iteration'' = None then d(''iteration'' \<mapsto> PyInt 0) else d)),
                next_addr := Suc (next_addr h)\<rparr>)"
  by (cases "dicts h S")
     (auto simp: working_copy_def dict_copy_def dict_setdefault_def split: option.splits)

lemma run_loop_unknown_run:
  assumes "run_loop E g run_id cur stp st lg w = (w', Inr x)" "run_id = Some k"
    "map_of (RUNS w) k = None"
  shows "trace w' = trace w"
proof (cases "cur \<noteq> PyNone \<and> stp < max_steps g")
  case False
  with assms(1) show ?thesis by (auto simp: run_loop_stop)
next
  case True
  then have c: "cur \<noteq> PyNone" "stp < max_steps g" by auto
  show ?thesis
  proof (cases "loop_body E g run_id cur (stp + 1) st lg w")
    case (Raised w1 e)
    from run_loop_Raised[OF c this] assms(1) show ?thesis by simp
  next
    case (Break w1 st1 lg1)
    from body_Returned_store(3)[of E g run_id cur "stp + 1" st lg w w1 st1 lg1 _ k] this assms(2,3)
    show ?thesis by auto
  next
    case (Continue w1 cur' st1 lg1)
    from body_Returned_store(3)[of E g run_id cur "stp + 1" st lg w w1 st1 lg1 cur' k] this assms(2,3)
    show ?thesis by auto
  qed
qed

text \<open>Everything about the end of a run, read off the passes it added to the record.\<close>

lemma run_graph_status_outcome:
  assumes "run_graph_status E g S run_id w = (w', r)" "trace w' = trace w @ new"
  shows "case r of
      Inl e \<Rightarrow> (new \<noteq> [] \<and> ev_exn (last new) = Some e) \<or>
               (new = [] \<and> e = TypeError \<and> dicts (mem w) S = None) \<or>
               (new = [] \<and> e = KeyError \<and> (\<exists>k. run_id = Some k \<and> map_of (RUNS w) k = None))
    | Inr (st', lg', stat) \<Rightarrow>
        (if new \<noteq> [] \<and> ev_finished (last new) then stat = ''completed''
         else (new = [] \<or> ev_routed (last new)) \<and>
              (if (if new = [] then PyStr (start_node_id g) else ev_next g (last new)) = PyNone
               then stat = ''completed''
               else stat = ''max_steps_reached'' \<and> max_steps g \<le> int (length new)))"
  using assms(1)
proof (cases rule: run_graph_status_cases)
  case (nocopy e)
  then show ?thesis using assms(2)
    by (cases rule: working_copy_cases[of "mem w" S]) auto
next
  case (raised st h1 e)
  from run_loop_outcome[OF raised(2), of new] assms(2) raised(3) show ?thesis
    by (auto split: if_splits)
next
  case (nopersist st h1 st' lg stat e)
  from persist_Inl[OF nopersist(3)] obtain k where
    k: "e = KeyError" "run_id = Some k" "map_of (RUNS w') k = None" by blast
  from run_loop_keys[OF nopersist(2)] k(3) have u: "map_of (RUNS w) k = None"
    using keys_map_of_None[of "RUNS w'" "RUNS w" k] by simp
  have "trace w' = trace (w\<lparr>mem := h1\<rparr>)"
    using run_loop_unknown_run[OF nopersist(2) k(2)] u by simp
  with assms(2) have "new = []" by simp
  with k u nopersist(4) show ?thesis by simp
next
  case (returned st h1 w1 st' lg stat)
  from persist_frame(1)[OF returned(3)] assms(2) have "trace w1 = trace w @ new" by simp
  from run_loop_outcome[OF returned(2), of new] this returned(4) show ?thesis
    by (auto split: if_splits)
qed




lemma lookup_node_str: "nodes g s = Some f \<Longrightarrow> lookup_node g (PyStr s) = Inr f"
  by (simp add: lookup_node_def)

section \<open>The record of passes is not read\<close>

lemma persist_trace:
  "persist E run_id st lg stat (w\<lparr>trace := t\<rparr>) =
     (case persist E run_id st lg stat w of Inl e \<Rightarrow> Inl e | Inr w' \<Rightarrow> Inr (w'\<lparr>trace := t\<rparr>))"
  by (auto simp: persist_def update_run_def split: option.splits)

lemma loop_body_trace:
  "loop_body E g run_id cur stp st lg (w\<lparr>trace := t\<rparr>) =
     (case loop_body E g run_id cur stp st lg w of
        Raised w1 e \<Rightarrow> Raised (w1\<lparr>trace := t @ drop (length (trace w)) (trace w1)\<rparr>) e
      | Break w1 st' lg' \<Rightarrow>
          Break (w1\<lparr>trace := t @ drop (length (trace w)) (trace w1)\<rparr>) st' lg'
      | Continue w1 cur' st' lg' \<Rightarrow>
          Continue (w1\<lparr>trace := t @ drop (length (trace w)) (trace w1)\<rparr>) cur' st' lg')"
  by (auto simp: loop_body_def persist_def update_run_def dict_pop_def Let_def
           split: sum.splits prod.splits option.splits)

text \<open>Starting a loop with another record of passes changes nothing but the record it ends
  with.\<close>

lemma run_loop_trace_ghost:
  "run_loop E g run_id cur stp st lg w = (w', r) \<Longrightarrow>
   \<exists>t'. run_loop E g run_id cur stp st lg (w\<lparr>trace := t\<rparr>) = (w'\<lparr>trace := t'\<rparr>, r)"
proof (induction E g run_id cur stp st lg w arbitrary: t rule: run_loop.induct)
  case (1 E g run_id cur stp st lg w)
  show ?case
  proof (cases "cur \<noteq> PyNone \<and> stp < max_steps g")
    case False
    with "1.prems" show ?thesis by (auto simp: run_loop_stop)
  next
    case True
    then have c: "cur \<noteq> PyNone" "stp < max_steps g" by auto
    note b = loop_body_trace[where E = E and g = g and run_id = run_id and cur = cur
        and stp = "stp + 1" and st = st and lg = lg and w = w and t = t]
    show ?thesis
    proof (cases "loop_body E g run_id cur (stp + 1) st lg w")
      case (Raised w1 e)
      with b obtain t1 where
        "loop_body E g run_id cur (stp + 1) st lg (w\<lparr>trace := t\<rparr>) = Raised (w1\<lparr>trace := t1\<rparr>) e"
        by simp
      from run_loop_Raised[OF c this] run_loop_Raised[OF c Raised] "1.prems"
      show ?thesis by auto
    next
      case (Break w1 st1 lg1)
      with b obtain t1 where
        "loop_body E g run_id cur (stp + 1) st lg (w\<lparr>trace := t\<rparr>) = Break (w1\<lparr>trace := t1\<rparr>) st1 lg1"
        by simp
      from run_loop_Break[OF c this] run_loop_Break[OF c Break] "1.prems"
      show ?thesis by auto
    next
      case (Continue w1 cur' st1 lg1)
      with b obtain t1 where b': "loop_body E g run_id cur (stp + 1) st lg (w\<lparr>trace := t\<rparr>)
          = Continue (w1\<lparr>trace := t1\<rparr>) cur' st1 lg1" by simp
      from run_loop_Continue[OF c Continue] "1.prems"
      have rl: "run_loop E g run_id cur' (stp + 1) st1 lg1 w1 = (w', r)" by simp
      from "1.IH"[OF True Continue rl, of t1] run_loop_Continue[OF c b']
      show ?thesis by simp
    qed
  qed
qed

lemma run_graph_trace_ghost:
  assumes "run_graph E g S run_id w = (w', r)"
  shows "\<exists>t'. run_graph E g S run_id (w\<lparr>trace := t\<rparr>) = (w'\<lparr>trace := t'\<rparr>, r)"
proof -
  obtain r' where rs: "run_graph_status E g S run_id w = (w', r')"
    and rr: "r = (case r' of Inl e \<Rightarrow> Inl e | Inr (st, lg, stat) \<Rightarrow> Inr (st, lg))"
    using assms by (auto simp: run_graph_def split: prod.splits sum.splits)
  have "\<exists>t'. run_graph_status E g S run_id (w\<lparr>trace := t\<rparr>) = (w'\<lparr>trace := t'\<rparr>, r')"
    using rs
  proof (cases rule: run_graph_status_cases)
    case (nocopy e)
    then show ?thesis by (auto simp: run_graph_status_def intro: exI[of _ t])
  next
    case (raised st h1 e)
    from run_loop_trace_ghost[OF raised(2), of t] obtain t' where
      "run_loop E g run_id (PyStr (start_node_id g)) 0 st [] (w\<lparr>mem := h1\<rparr>\<lparr>trace := t\<rparr>)
         = (w'\<lparr>trace := t'\<rparr>, Inl e)" by blast
    moreover have "w\<lparr>mem := h1\<rparr>\<lparr>trace := t\<rparr> = w\<lparr>trace := t\<rparr>\<lparr>mem := h1\<rparr>" by simp
    ultimately show ?thesis using raised(1,3)
      by (intro exI[of _ t']) (simp add: run_graph_status_def)
  next
    case (nopersist st h1 st' lg stat e)
    from run_loop_trace_ghost[OF nopersist(2), of t] obtain t' where
      "run_loop E g run_id (PyStr (start_node_id g)) 0 st [] (w\<lparr>mem := h1\<rparr>\<lparr>trace := t\<rparr>)
         = (w'\<lparr>trace := t'\<rparr>, Inr (st', lg, stat))" by blast
    moreover have "w\<lparr>mem := h1\<rparr>\<lparr>trace := t\<rparr> = w\<lparr>trace := t\<rparr>\<lparr>mem := h1\<rparr>" by simp
    ultimately show ?thesis using nopersist(1,3,4)
      by (intro exI[of _ t']) (simp add: run_graph_status_def persist_trace)
  next
    case (returned st h1 w1 st' lg stat)
    from run_loop_trace_ghost[OF returned(2), of t] obtain t' where
      "run_loop E g run_id (PyStr (start_node_id g)) 0 st [] (w\<lparr>mem := h1\<rparr>\<lparr>trace := t\<rparr>)
         = (w1\<lparr>trace := t'\<rparr>, Inr (st', lg, stat))" by blast
    moreover have "w\<lparr>mem := h1\<rparr>\<lparr>trace := t\<rparr> = w\<lparr>trace := t\<rparr>\<lparr>mem := h1\<rparr>" by simp
    ultimately show ?thesis using returned(1,3,4)
      by (intro exI[of _ t']) (simp add: run_graph_status_def persist_trace)
  qed
  with rr show ?thesis by (auto simp: run_graph_def split: sum.splits)
qed

section \<open>The step budget\<close>

lemma run_graph_fst: "fst (run_graph E g S run_id w) = fst (run_graph_status E g S run_id w)"
  by (simp add: run_graph_def split: prod.splits sum.splits)

text \<open>
  Claim C1.  For every graph and every initial state, \<^verbatim>\<open>run_graph\<close> terminates (the loop is a
  total function, by the measure \<open>max_steps - step\<close>), and the passes through the loop body
  it adds to the record, hence the node invocations, are at most \<open>max_steps\<close>, whatever the
  nodes do to the heap.
\<close>

theorem run_graph_terminates_within_max_steps:
  "\<exists>new. trace (fst (run_graph E g S run_id w)) = trace w @ new \<and> length new \<le> nat (max_steps g)"
proof -
  obtain w' r where "run_graph_status E g S run_id w = (w', r)"
    by (cases "run_graph_status E g S run_id w")
  from run_graph_status_trace[OF this] this show ?thesis
    by (auto simp: run_graph_fst)
qed

section \<open>The \<^verbatim>\<open>_next_node\<close> override\<close>






section \<open>Termination by the \<^verbatim>\<open>_finished\<close> flag\<close>




section \<open>Routing by the edge table\<close>




lemma assign_nothing: "dicts h st = Some d \<Longrightarrow> assign [] st h = (h, Inr st)"
  by (simp add: assign_def fun_upd_idem)




section \<open>The step budget runs out\<close>

lemma py_truthy_other_dict:
  assumes "dicts h st = Some d" "\<not> py_truthy h (dict_get d k)"
  shows "\<not> py_truthy (h\<lparr>dicts := (dicts h)(st \<mapsto> d')\<rparr>) (dict_get d k)"
proof (cases "dict_get d k")
  case (PyDictRef a)
  have "a \<noteq> st"
  proof
    assume "a = st"
    with assms PyDictRef have "dom d = {}" by (simp add: py_truthy_def)
    moreover from PyDictRef have "d k \<noteq> None" by (auto simp: dict_get_def split: option.splits)
    ultimately show False by auto
  qed
  with assms(2) PyDictRef show ?thesis by (simp add: py_truthy_def)
qed (use assms(2) in \<open>auto simp: py_truthy_def\<close>)

lemma py_truthy_fresh_dict:
  assumes "heap_fresh h" "\<not> py_truthy h v"
  shows "\<not> py_truthy (h\<lparr>dicts := (dicts h)(next_addr h \<mapsto> d'), next_addr := n\<rparr>) v"
proof (cases v)
  case (PyDictRef a)
  with assms have "a \<noteq> next_addr h"
    by (auto simp: py_truthy_def heap_fresh_def)
  with assms(2) PyDictRef show ?thesis by (simp add: py_truthy_def)
qed (use assms(2) in \<open>auto simp: py_truthy_def\<close>)

lemma summarisable_dicts_upd:
  "summarisable h d \<Longrightarrow> summarisable (h\<lparr>dicts := (dicts h)(a \<mapsto> d')\<rparr>) d"
  by (auto simp: summarisable_def split: option.splits pyval.splits)

lemma summarisable_alloc:
  "summarisable h d \<Longrightarrow> summarisable (h\<lparr>dicts := (dicts h)(a \<mapsto> d'), next_addr := n\<rparr>) d"
  by (auto simp: summarisable_def split: option.splits pyval.splits)

lemma summarisable_cong:
  "d' ''complexity_report'' = d ''complexity_report'' \<Longrightarrow> summarisable h d' = summarisable h d"
  by (simp add: summarisable_def)

lemma summarisable_key:
  "k \<noteq> ''complexity_report'' \<Longrightarrow> summarisable h (d(k := x)) = summarisable h d"
  by (simp add: summarisable_def)

lemma summarisable_summary: "summarisable h d \<Longrightarrow> \<exists>s. summarise_state E h d = Inr s"
  by (auto simp: summarisable_def summarise_state_def complexity_parts_def Let_def
           split: option.splits pyval.splits)

lemma dict_get_upd_other: "k \<noteq> k' \<Longrightarrow> dict_get (d(k' := x)) k = dict_get d k"
  by (simp add: dict_get_def)

text \<open>One pass of a node that sets \<^verbatim>\<open>_next_node = "loop"\<close> and nothing else.\<close>

lemma loop_pass:
  assumes g: "lookup_node g (PyStr ''loop'') = Inr (assign [(''_next_node'', PyStr ''loop'')])"
    and d: "dicts (mem w) st = Some d"
    and f: "\<not> py_truthy (mem w) (dict_get d ''_finished'')"
    and s: "summarisable (mem w) d"
    and k: "\<forall>k. run_id = Some k \<longrightarrow> map_of (RUNS w) k \<noteq> None"
  shows "\<exists>w1 en d1. loop_body E g run_id (PyStr ''loop'') stp st lg w
              = Continue w1 (PyStr ''loop'') st (lg @ [en]) \<and>
           dicts (mem w1) st = Some d1 \<and>
           \<not> py_truthy (mem w1) (dict_get d1 ''_finished'') \<and>
           summarisable (mem w1) d1 \<and>
           (\<forall>k. run_id = Some k \<longrightarrow> map_of (RUNS w1) k \<noteq> None) \<and>
           trace w1 = trace w @ [Returned (PyStr ''loop'') False (Some (PyStr ''loop''))]"
proof -
  let ?d1 = "d(''_next_node'' \<mapsto> PyStr ''loop'')"
  let ?h1 = "(mem w)\<lparr>dicts := (dicts (mem w))(st \<mapsto> ?d1)\<rparr>"
  have n: "assign [(''_next_node'', PyStr ''loop'')] st (mem w) = (?h1, Inr st)"
    using d by (simp add: assign_def)
  have d1: "dicts ?h1 st = Some ?d1" by simp
  have fin: "dict_get ?d1 ''_finished'' = dict_get d ''_finished''"
    by (simp add: dict_get_def)
  have f1: "\<not> py_truthy ?h1 (dict_get ?d1 ''_finished'')"
    unfolding fin using py_truthy_other_dict[OF d f] .
  have s1: "summarisable ?h1 ?d1"
    using summarisable_dicts_upd[OF s] by (simp add: summarisable_def)
  have nx: "dict_get ?d1 ''_next_node'' = PyStr ''loop''" by (simp add: dict_get_def)
  let ?d2 = "?d1(''_next_node'' := None)"
  let ?h2 = "?h1\<lparr>dicts := (dicts ?h1)(st \<mapsto> ?d2)\<rparr>"
  have f2: "\<not> py_truthy ?h2 (dict_get ?d2 ''_finished'')"
    using py_truthy_other_dict[OF d1 f1, of ?d2] by (simp add: dict_get_def)
  have s2: "summarisable ?h2 ?d2"
    using summarisable_dicts_upd[OF s1, where a = st and d' = ?d2] by (simp add: summarisable_def)
  show ?thesis
  proof (cases rule: loop_body_cases[of g "PyStr ''loop''" E run_id stp st lg w])
    case (unresolved e)
    with g show ?thesis by simp
  next
    case (failed node h1 e)
    with g n show ?thesis by simp
  next
    case (notdict node h1 st')
    with g n have "h1 = ?h1" "st' = st" by auto
    with notdict(3) show ?thesis by simp
  next
    case (nosummary node h1 st' d' e)
    with g n have "h1 = ?h1" "st' = st" by auto
    with nosummary(3,4) summarisable_summary[OF s1, of E] show ?thesis by auto
  next
    case (nopersist node h1 st' d' s' e)
    from persist_Inl[OF nopersist(5)] k show ?thesis by auto
  next
    case (break node h1 st' d' s' w2)
    with g n have "h1 = ?h1" "st' = st" by auto
    with break(3,6) f1 show ?thesis by auto
  next
    case (continue node h1 st' d' s' w2)
    with g n have e: "h1 = ?h1" "st' = st" "d' = ?d1" by auto
    from persist_frame(3)[OF continue(5)]
    have keys: "map fst (RUNS w2) = map fst (RUNS w)" by simp
    have k2: "\<forall>k. run_id = Some k \<longrightarrow> map_of (RUNS w2) k \<noteq> None"
      using k keys_map_of_None[OF keys] by auto
    from continue(7) e nx f2 s2 k2 show ?thesis
      by (intro exI[of _ "w2\<lparr>mem := ?h2,
              trace := trace w @ [Returned (PyStr ''loop'') False (?d1 ''_next_node'')]\<rparr>"]
            exI[of _ "\<lparr>step = stp, node_id = PyStr ''loop'',
                duration_ms = (perf_counter E (Suc (ticks w)) - perf_counter E (ticks w)) * 1000,
                summary = s'\<rparr>"] exI[of _ ?d2]) simp
  qed
qed


lemma three_loop_passes:
  assumes g: "nodes g ''loop'' = Some (assign [(''_next_node'', PyStr ''loop'')])"
    and m: "max_steps g = 3"
    and d: "dicts (mem w) st = Some d"
    and f: "\<not> py_truthy (mem w) (dict_get d ''_finished'')"
    and s: "summarisable (mem w) d"
    and k: "\<forall>k. run_id = Some k \<longrightarrow> map_of (RUNS w) k \<noteq> None"
  shows "\<exists>w3 lg. run_loop E g run_id (PyStr ''loop'') 0 st [] w
              = (w3, Inr (st, lg, ''max_steps_reached'')) \<and>
           length lg = 3 \<and> length (trace w3) = length (trace w) + 3 \<and>
           (\<forall>k. run_id = Some k \<longrightarrow> map_of (RUNS w3) k \<noteq> None)"
proof -
  note lk = lookup_node_str[OF g]
  have c: "PyStr ''loop'' \<noteq> PyNone" by simp
  from loop_pass[OF lk d f s k, of E "0 + 1" "[]"] obtain w1 e1 d1 where
    1: "loop_body E g run_id (PyStr ''loop'') (0 + 1) st [] w = Continue w1 (PyStr ''loop'') st ([] @ [e1])"
    and i1: "dicts (mem w1) st = Some d1" "\<not> py_truthy (mem w1) (dict_get d1 ''_finished'')"
      "summarisable (mem w1) d1" "\<forall>k. run_id = Some k \<longrightarrow> map_of (RUNS w1) k \<noteq> None"
      "trace w1 = trace w @ [Returned (PyStr ''loop'') False (Some (PyStr ''loop''))]"
    by blast
  from loop_pass[OF lk i1(1-4), of E "0 + 1 + 1" "[] @ [e1]"] obtain w2 e2 d2 where
    2: "loop_body E g run_id (PyStr ''loop'') (0 + 1 + 1) st ([] @ [e1]) w1
          = Continue w2 (PyStr ''loop'') st (([] @ [e1]) @ [e2])"
    and i2: "dicts (mem w2) st = Some d2" "\<not> py_truthy (mem w2) (dict_get d2 ''_finished'')"
      "summarisable (mem w2) d2" "\<forall>k. run_id = Some k \<longrightarrow> map_of (RUNS w2) k \<noteq> None"
      "trace w2 = trace w1 @ [Returned (PyStr ''loop'') False (Some (PyStr ''loop''))]"
    by blast
  from loop_pass[OF lk i2(1-4), of E "0 + 1 + 1 + 1" "([] @ [e1]) @ [e2]"] obtain w3 e3 d3 where
    3: "loop_body E g run_id (PyStr ''loop'') (0 + 1 + 1 + 1) st (([] @ [e1]) @ [e2]) w2
          = Continue w3 (PyStr ''loop'') st ((([] @ [e1]) @ [e2]) @ [e3])"
    and i3: "\<forall>k. run_id = Some k \<longrightarrow> map_of (RUNS w3) k \<noteq> None"
      "trace w3 = trace w2 @ [Returned (PyStr ''loop'') False (Some (PyStr ''loop''))]"
    by blast
  have "run_loop E g run_id (PyStr ''loop'') 0 st [] w
        = run_loop E g run_id (PyStr ''loop'') (0 + 1) st ([] @ [e1]) w1"
    using run_loop_Continue[OF c _ 1] m by simp
  also have "\<dots> = run_loop E g run_id (PyStr ''loop'') (0 + 1 + 1) st (([] @ [e1]) @ [e2]) w2"
    using run_loop_Continue[OF c _ 2] m by simp
  also have "\<dots> = run_loop E g run_id (PyStr ''loop'') (0 + 1 + 1 + 1) st ((([] @ [e1]) @ [e2]) @ [e3]) w3"
    using run_loop_Continue[OF c _ 3] m by simp
  also have "\<dots> = (w3, Inr (st, (([] @ [e1]) @ [e2]) @ [e3], ''max_steps_reached''))"
    using run_loop_stop[of "PyStr ''loop''" "0 + 1 + 1 + 1" g E run_id st _ w3] m by simp
  finally show ?thesis using i1(5) i2(5) i3 by simp
qed

text \<open>
  Claim C5, as the code has it.  The scenario does not give three log entries on any initial
  state: when the initial state holds a truthy \<^verbatim>\<open>_finished\<close>, which the node \<^verbatim>\<open>loop\<close> never
  touches, the run breaks after the first pass with one log entry and status \<^verbatim>\<open>completed\<close>.
\<close>

theorem scenario_B_finished_state_counterexample:
  "snd (run_graph_status test_env scenario_B 0 None
          (start_world [''_finished'' \<mapsto> PyBool True] [])) =
     Inr (1, [\<lparr>step = 1, node_id = PyStr ''loop'', duration_ms = 1000,
                summary = ''iteration=0''\<rparr>], ''completed'')"
  by (simp add: exec_simps scenario_B_def)

text \<open>
  Claim C5, amended.  When a run returns and its loop was left neither by the \<^verbatim>\<open>_finished\<close>
  break nor with \<^verbatim>\<open>None\<close> as the current node, the status is \<^verbatim>\<open>max_steps_reached\<close> and the
  passes are as many as the step budget.  In particular, for a graph with start node
  \<^verbatim>\<open>loop\<close>, a step budget of 3 and a node \<^verbatim>\<open>loop\<close> that sets \<^verbatim>\<open>_next_node = "loop"\<close> and
  nothing else, a run on any initial state whose \<^verbatim>\<open>_finished\<close> is absent or falsy (and of
  which a summary can be built, with a run id that is absent or known to the store) makes
  three passes and returns three log entries and status \<^verbatim>\<open>max_steps_reached\<close>.
\<close>

theorem step_budget_exhausted:
  assumes "run_graph_status E g S run_id w = (w', r)"
    and "trace w' = trace w @ new"
  shows "(\<forall>st lg stat. r = Inr (st, lg, stat) \<longrightarrow>
            \<not> (new \<noteq> [] \<and> ev_finished (last new)) \<longrightarrow>
            (if new = [] then PyStr (start_node_id g) else ev_next g (last new)) \<noteq> PyNone \<longrightarrow>
            stat = ''max_steps_reached'' \<and> length new = nat (max_steps g)) \<and>
         (nodes g ''loop'' = Some (assign [(''_next_node'', PyStr ''loop'')]) \<longrightarrow>
          start_node_id g = ''loop'' \<longrightarrow> max_steps g = 3 \<longrightarrow>
          (\<forall>d0. dicts (mem w) S = Some d0 \<longrightarrow> heap_fresh (mem w) \<longrightarrow>
                \<not> py_truthy (mem w) (dict_get d0 ''_finished'') \<longrightarrow>
                summarisable (mem w) d0 \<longrightarrow>
                (\<forall>k. run_id = Some k \<longrightarrow> map_of (RUNS w) k \<noteq> None) \<longrightarrow>
                (\<exists>st lg. r = Inr (st, lg, ''max_steps_reached'') \<and> length lg = 3 \<and>
                         length new = 3)))"
proof -
  have 1: "stat = ''max_steps_reached'' \<and> length new = nat (max_steps g)"
    if "r = Inr (st, lg, stat)" "\<not> (new \<noteq> [] \<and> ev_finished (last new))"
      "(if new = [] then PyStr (start_node_id g) else ev_next g (last new)) \<noteq> PyNone"
    for st lg stat
  proof -
    from run_graph_status_outcome[OF assms] that
    have "stat = ''max_steps_reached''" "max_steps g \<le> int (length new)"
      by (auto split: if_splits)
    moreover from run_graph_status_trace[OF assms(1)] assms(2)
    have "length new \<le> nat (max_steps g)" by auto
    ultimately show ?thesis by auto
  qed
  have 2: "\<exists>st lg. r = Inr (st, lg, ''max_steps_reached'') \<and> length lg = 3 \<and> length new = 3"
    if g: "nodes g ''loop'' = Some (assign [(''_next_node'', PyStr ''loop'')])"
      and sn: "start_node_id g = ''loop''" and m: "max_steps g = 3"
      and d0: "dicts (mem w) S = Some d0" and fr: "heap_fresh (mem w)"
      and f: "\<not> py_truthy (mem w) (dict_get d0 ''_finished'')"
      and s: "summarisable (mem w) d0"
      and k: "\<forall>k. run_id = Some k \<longrightarrow> map_of (RUNS w) k \<noteq> None"
    for d0
  proof -
    let ?st = "next_addr (mem w)"
    let ?d = "if d0 ''iteration'' = None then d0(''iteration'' \<mapsto> PyInt 0) else d0"
    let ?h1 = "(mem w)\<lparr>dicts := (dicts (mem w))(?st \<mapsto> ?d), next_addr := Suc ?st\<rparr>"
    have wc: "working_copy S (mem w) = Inr (?st, ?h1)"
      using d0 by (cases rule: working_copy_cases[of "mem w" S]) auto
    have fin: "dict_get ?d ''_finished'' = dict_get d0 ''_finished''"
      by (simp add: dict_get_def)
    have a: "dicts (mem (w\<lparr>mem := ?h1\<rparr>)) ?st = Some ?d" by simp
    have b: "\<not> py_truthy (mem (w\<lparr>mem := ?h1\<rparr>)) (dict_get ?d ''_finished'')"
      unfolding fin using py_truthy_fresh_dict[OF fr f] by simp
    have "?d ''complexity_report'' = d0 ''complexity_report''" by simp
    from summarisable_cong[where d' = ?d and d = d0 and h = ?h1, OF this]
      summarisable_alloc[OF s, where a = ?st and d' = ?d and n = "Suc ?st"]
    have c: "summarisable (mem (w\<lparr>mem := ?h1\<rparr>)) ?d" by simp
    have e: "\<forall>k. run_id = Some k \<longrightarrow> map_of (RUNS (w\<lparr>mem := ?h1\<rparr>)) k \<noteq> None"
      using k by simp
    from three_loop_passes[OF g m a b c e, of E] obtain w3 lg where
      rl: "run_loop E g run_id (PyStr ''loop'') 0 ?st [] (w\<lparr>mem := ?h1\<rparr>)
             = (w3, Inr (?st, lg, ''max_steps_reached''))"
      and l: "length lg = 3" "length (trace w3) = length (trace (w\<lparr>mem := ?h1\<rparr>)) + 3"
      and k3: "\<forall>k. run_id = Some k \<longrightarrow> map_of (RUNS w3) k \<noteq> None"
      by blast
    obtain w4 where p: "persist E run_id ?st lg ''max_steps_reached'' w3 = Inr w4"
      using persist_Inl[of E run_id ?st lg "''max_steps_reached''" w3] k3
      by (cases "persist E run_id ?st lg ''max_steps_reached'' w3") auto
    have "run_graph_status E g S run_id w = (w4, Inr (?st, lg, ''max_steps_reached''))"
      using wc rl p sn by (simp add: run_graph_status_def)
    with assms(1) have r: "r = Inr (?st, lg, ''max_steps_reached'')" and w: "w' = w4" by simp_all
    from persist_frame(1)[OF p] l(2) w assms(2) have "length new = 3" by simp
    with r l(1) show ?thesis by blast
  qed
  from 1 2 show ?thesis by blast
qed

theorem step_budget_exhausted_witness:
  "\<exists>st lg. snd (run_graph_status test_env scenario_B 0 (Some ''run_1'')
             (snd (create_run test_env ''B'' 0 (start_world [''code'' \<mapsto> PyStr ''x = 1''] []))))
        = Inr (st, lg, ''max_steps_reached'') \<and> length lg = 3"
proof -
  let ?d = "[''code'' \<mapsto> PyStr ''x = 1'']"
  let ?w = "snd (create_run test_env ''B'' 0 (start_world ?d []))"
  let ?R = "run_graph_status test_env scenario_B 0 (Some ''run_1'') ?w"
  have a: "?R = (fst ?R, snd ?R)" by simp
  obtain new where t: "trace (fst ?R) = trace ?w @ new"
    using run_graph_status_trace[OF a] by blast
  have n: "nodes scenario_B ''loop'' = Some (assign [(''_next_node'', PyStr ''loop'')])"
    "start_node_id scenario_B = ''loop''" "max_steps scenario_B = 3"
    by (simp_all add: scenario_B_def)
  have d: "dicts (mem ?w) 0 = Some ?d" by (simp add: create_run_def start_world_def Let_def)
  have fr: "heap_fresh (mem ?w)" by (simp add: heap_fresh_def create_run_def start_world_def Let_def)
  have f: "\<not> py_truthy (mem ?w) (dict_get ?d ''_finished'')"
    by (simp add: py_truthy_def dict_get_def)
  have s: "summarisable (mem ?w) ?d" by (simp add: summarisable_def)
  have k: "\<forall>k. Some ''run_1'' = Some k \<longrightarrow> map_of (RUNS ?w) k \<noteq> None"
    by (simp add: exec_simps)
  from step_budget_exhausted[OF a t] n d fr f s k
  show ?thesis by blast
qed

section \<open>The log\<close>




section \<open>The caller's state\<close>





lemma leaves_alone_append_to: "leaves_alone S (append_to k v)"
  by (auto simp: leaves_alone_def append_to_def split: option.splits pyval.splits)



text \<open>The copy is shallow.  A node that appends to the list under \<^verbatim>\<open>score_history\<close>, as
  \<^verbatim>\<open>evaluate_quality\<close> does, leaves the caller's dictionary with the binding it had, to the same
  list object, and that object has grown.\<close>

lemma shallow_copy_shares_objects:
  "dicts (mem (fst (run_graph test_env history_graph 0 None
       (start_world [''score_history'' \<mapsto> PyListRef 0] [PyInt 5])))) 0
     = Some [''score_history'' \<mapsto> PyListRef 0] \<and>
   lists (mem (start_world [''score_history'' \<mapsto> PyListRef 0] [PyInt 5])) 0 = Some [PyInt 5] \<and>
   lists (mem (fst (run_graph test_env history_graph 0 None
       (start_world [''score_history'' \<mapsto> PyListRef 0] [PyInt 5])))) 0
     = Some [PyInt 5, PyInt 7]"
  by (simp add: exec_simps history_graph_def)

section \<open>A node that raises\<close>

text \<open>What a failed run leaves in the store for its run: the status it found when no pass got
  as far as \<^verbatim>\<open>update_run\<close>, \<^verbatim>\<open>running\<close> otherwise.\<close>

lemma failed_run_status:
  assumes "run_graph_status E g S run_id w = (w', Inl e)" "trace w' = trace w @ new"
    and "run_id = Some k" "map_of (RUNS w) k = Some r0"
  shows "\<exists>r1. map_of (RUNS w') k = Some r1 \<and>
           status r1 = (if new = [] \<or> ev_exn (hd new) \<noteq> None then status r0 else ''running'')"
  using assms(1)
proof (cases rule: run_graph_status_cases)
  case (nocopy e')
  with assms(2,4) show ?thesis by simp
next
  case (raised st h1 e')
  from run_loop_status[OF raised(2) _ assms(3), of new r0] assms(2,4) show ?thesis by simp
next
  case (nopersist st h1 st' lg stat e')
  from persist_Inl[OF nopersist(3)] assms(3) have u: "map_of (RUNS w') k = None" by auto
  from run_loop_keys[OF nopersist(2)] have "map fst (RUNS w') = map fst (RUNS w)" by simp
  from keys_map_of_None[OF this, of k] u assms(4) show ?thesis by simp
qed auto

text \<open>
  Claim C8.  In a run with a run id that the store knows, let pass \<open>i\<close> be one in which the
  node raised \<open>e\<close>.  Then that pass is the last, \<^verbatim>\<open>run_graph\<close> ends with \<open>e\<close> raised to its
  caller, and the status in the store is what was last written before the failing invocation:
  the status the run had at the call when the first pass failed, \<^verbatim>\<open>running\<close> otherwise.  For a
  run that was \<^verbatim>\<open>created\<close> it is \<^verbatim>\<open>created\<close> or \<^verbatim>\<open>running\<close>, never \<^verbatim>\<open>completed\<close> or
  \<^verbatim>\<open>max_steps_reached\<close>.
\<close>

theorem node_failure_propagates:
  assumes "run_graph E g S (Some k) w = (w', r)"
    and "trace w' = trace w @ new"
    and "map_of (RUNS w) k = Some r0"
    and "i < length new"
    and "new ! i = Failed n e"
  shows "r = Inl e \<and> Suc i = length new \<and>
         (\<exists>r1. map_of (RUNS w') k = Some r1 \<and>
            status r1 = (if i = 0 then status r0 else ''running'') \<and>
            (status r0 = ''created'' \<longrightarrow>
               (status r1 = ''created'' \<or> status r1 = ''running'') \<and>
               status r1 \<noteq> ''completed'' \<and> status r1 \<noteq> ''max_steps_reached''))"
proof -
  obtain r' where rs: "run_graph_status E g S (Some k) w = (w', r')"
    using assms(1) by (auto simp: run_graph_def split: prod.splits sum.splits)
  from run_graph_status_trace[OF rs] assms(2)
  have f: "follows g (PyStr (start_node_id g)) new" by auto
  have nr: "\<not> ev_routed (new ! i)" using assms(5) by simp
  from follows_last[OF f assms(4) nr] have l: "Suc i = length new" .
  have ne: "new \<noteq> []" using assms(4) by auto
  from last_conv_nth[OF ne] l have la: "last new = new ! i" by (metis diff_Suc_1)
  from run_graph_status_outcome[OF rs assms(2)] ne la assms(5)
  have r': "r' = Inl e" by (cases r') (auto split: if_splits)
  with rs assms(1) have r: "r = Inl e" by (simp add: run_graph_def)
  have hd: "ev_exn (hd new) \<noteq> None \<longleftrightarrow> i = 0"
  proof (cases i)
    case 0
    with assms(5) ne show ?thesis by (simp add: hd_conv_nth)
  next
    case (Suc j)
    with assms(4) have "Suc 0 < length new" by simp
    from follows_nth[OF f this] have "ev_routed (new ! 0)" by simp
    then have "ev_exn (new ! 0) = None" by (cases "new ! 0") auto
    with ne Suc show ?thesis by (simp add: hd_conv_nth)
  qed
  from failed_run_status[OF rs[unfolded r'] assms(2) refl assms(3)] ne hd
  obtain r1 where r1: "map_of (RUNS w') k = Some r1"
    "status r1 = (if i = 0 then status r0 else ''running'')" by auto
  have "(status r1 = ''created'' \<or> status r1 = ''running'') \<and>
        status r1 \<noteq> ''completed'' \<and> status r1 \<noteq> ''max_steps_reached''"
    if "status r0 = ''created''"
    using r1(2) that by simp
  with r l r1 show ?thesis by blast
qed

theorem node_failure_propagates_witness:
  "snd (run_graph test_env failing_graph 0 (Some ''run_1'')
          (snd (create_run test_env ''failing'' 0 (start_world Map.empty []))))
     = Inl (NodeError ''boom'') \<and>
   (\<exists>r1. map_of (RUNS (fst (run_graph test_env failing_graph 0 (Some ''run_1'')
          (snd (create_run test_env ''failing'' 0 (start_world Map.empty [])))))) ''run_1''
        = Some r1 \<and> status r1 = ''running'')"
proof -
  let ?w = "snd (create_run test_env ''failing'' 0 (start_world Map.empty []))"
  let ?R = "run_graph test_env failing_graph 0 (Some ''run_1'') ?w"
  let ?new = "[Returned (PyStr ''a'') False None, Failed (PyStr ''b'') (NodeError ''boom'')]"
  have a: "?R = (fst ?R, snd ?R)" by simp
  have t: "trace (fst ?R) = trace ?w @ ?new"
    by (simp add: exec_simps failing_graph_def)
  have k: "map_of (RUNS ?w) ''run_1'' =
      Some \<lparr>id_run = ''run_1'', graph_id = ''failing'', state = 0, log_run = [],
            status = ''created'', created_at = ''T0'', updated_at = ''T0''\<rparr>"
    by (simp add: exec_simps)
  have i: "1 < length ?new" by simp
  have e: "?new ! 1 = Failed (PyStr ''b'') (NodeError ''boom'')" by simp
  from node_failure_propagates[OF a t k i e] show ?thesis by auto
qed

section \<open>Run identifiers\<close>

lemma digit_char_inj: "n < 10 \<Longrightarrow> m < 10 \<Longrightarrow> digit_char n = digit_char m \<Longrightarrow> n = m"
  unfolding digit_char_def
  by (subst (asm) nth_eq_iff_index_eq) auto

lemma py_str_nat_nonempty: "py_str_nat n \<noteq> []"
  by (subst py_str_nat.simps) simp

text \<open>Two numbers with the same decimal string are the same number.\<close>

lemma py_str_nat_inj: "py_str_nat n = py_str_nat m \<Longrightarrow> n = m"
proof (induction n arbitrary: m rule: py_str_nat.induct)
  case (1 n)
  show ?case
  proof (cases "n < 10")
    case True
    note n = this
    show ?thesis
    proof (cases "m < 10")
      case True
      with n "1.prems" show ?thesis
        by (simp add: py_str_nat.simps[of n] py_str_nat.simps[of m] digit_char_inj)
    next
      case False
      with n "1.prems" py_str_nat_nonempty[of "m div 10"] show ?thesis
        by (simp add: py_str_nat.simps[of n] py_str_nat.simps[of m])
    qed
  next
    case False
    note n = this
    show ?thesis
    proof (cases "m < 10")
      case True
      with n "1.prems" py_str_nat_nonempty[of "n div 10"] show ?thesis
        by (simp add: py_str_nat.simps[of n] py_str_nat.simps[of m])
    next
      case False
      with n "1.prems" have e: "py_str_nat (n div 10) = py_str_nat (m div 10)"
        "digit_char (n mod 10) = digit_char (m mod 10)"
        by (simp_all add: py_str_nat.simps[of n] py_str_nat.simps[of m])
      from "1.IH"[OF n e(1)] digit_char_inj[OF _ _ e(2)]
      have "n div 10 = m div 10" "n mod 10 = m mod 10" by simp_all
      then show ?thesis by (metis div_mult_mod_eq)
    qed
  qed
qed

lemma run_graph_keys: "map fst (RUNS (fst (run_graph E g S run_id w))) = map fst (RUNS w)"
proof -
  obtain w' r where rs: "run_graph_status E g S run_id w = (w', r)"
    by (cases "run_graph_status E g S run_id w")
  then have "map fst (RUNS w') = map fst (RUNS w)"
  proof (cases rule: run_graph_status_cases)
    case (raised st h1 e)
    from run_loop_keys[OF raised(2)] show ?thesis by simp
  next
    case (nopersist st h1 st' lg stat e)
    from run_loop_keys[OF nopersist(2)] show ?thesis by simp
  next
    case (returned st h1 w1 st' lg stat)
    from run_loop_keys[OF returned(2)] persist_frame(3)[OF returned(3)] show ?thesis by simp
  qed simp
  with rs show ?thesis by (simp add: run_graph_fst)
qed

lemma runs_numbered_keys:
  "runs_numbered w \<Longrightarrow>
   set (map fst (RUNS w)) = (\<lambda>i. ''run_'' @ py_str_nat i) ` {1..length (RUNS w)}"
  unfolding runs_numbered_def
  by (metis atLeastLessThanSuc_atLeastAtMost list.set_map set_upt)

text \<open>With the keys numbered, the id \<^verbatim>\<open>create_run\<close> makes is not a key yet, and the keys
  stay numbered.\<close>

lemma create_run_fresh:
  assumes "runs_numbered w" "create_run E gid S w = (rid, w')"
  shows "rid \<notin> set (map fst (RUNS w))" "runs_numbered w'"
    "set (map fst (RUNS w')) = insert rid (set (map fst (RUNS w)))"
proof -
  let ?n = "length (RUNS w)"
  have rid: "rid = ''run_'' @ py_str_nat (?n + 1)"
    using assms(2) by (simp add: create_run_def Let_def)
  show fresh: "rid \<notin> set (map fst (RUNS w))"
  proof
    assume "rid \<in> set (map fst (RUNS w))"
    with runs_numbered_keys[OF assms(1)] obtain i where
      i: "i \<in> {1..?n}" "rid = ''run_'' @ py_str_nat i" by auto
    with rid have "py_str_nat i = py_str_nat (?n + 1)" by simp
    from py_str_nat_inj[OF this] i(1) show False by simp
  qed
  have keys: "map fst (RUNS w') = map fst (RUNS w) @ [rid]"
    using assms(2) fresh by (auto simp: create_run_def Let_def update_keys)
  then have len: "length (RUNS w') = Suc ?n" by (metis length_append_singleton length_map)
  show "runs_numbered w'"
    using assms(1) keys rid len by (simp add: runs_numbered_def)
  show "set (map fst (RUNS w')) = insert rid (set (map fst (RUNS w)))"
    using keys by simp
qed

lemma serve_numbered:
  assumes "runs_numbered w" "serve E c w = (ids, w')"
  shows "runs_numbered w' \<and> distinct ids \<and> set ids \<inter> set (map fst (RUNS w)) = {} \<and>
         set (map fst (RUNS w')) = set (map fst (RUNS w)) \<union> set ids"
proof (cases c)
  case (CreateRun gid S)
  with assms(2) obtain rid where c: "create_run E gid S w = (rid, w')" "ids = [rid]"
    by (auto split: prod.splits)
  from create_run_fresh[OF assms(1) c(1)] c(2) show ?thesis by auto
next
  case (RunGraph g S run_id)
  with assms(2) have "ids = []" "w' = fst (run_graph E g S run_id w)" by auto
  with run_graph_keys[of E g S run_id w] assms(1) show ?thesis
    by (simp add: runs_numbered_def) (metis length_map)
qed

lemma process_numbered:
  "runs_numbered w \<Longrightarrow> process E cs w = (ids, w') \<Longrightarrow>
   runs_numbered w' \<and> distinct ids \<and> set ids \<inter> set (map fst (RUNS w)) = {} \<and>
   set (map fst (RUNS w')) = set (map fst (RUNS w)) \<union> set ids"
proof (induction cs arbitrary: w ids w')
  case Nil
  then show ?case by simp
next
  case (Cons c cs)
  obtain ids1 w1 where s: "serve E c w = (ids1, w1)" by (cases "serve E c w")
  obtain ids2 w2 where p: "process E cs w1 = (ids2, w2)" by (cases "process E cs w1")
  from Cons.prems(2) s p have e: "ids = ids1 @ ids2" "w' = w2" by simp_all
  from serve_numbered[OF Cons.prems(1) s] have 1: "runs_numbered w1" "distinct ids1"
    "set ids1 \<inter> set (map fst (RUNS w)) = {}"
    "set (map fst (RUNS w1)) = set (map fst (RUNS w)) \<union> set ids1" by simp_all
  from Cons.IH[OF 1(1) p] have 2: "runs_numbered w2" "distinct ids2"
    "set ids2 \<inter> set (map fst (RUNS w1)) = {}"
    "set (map fst (RUNS w2)) = set (map fst (RUNS w1)) \<union> set ids2" by simp_all
  from 1 2 e show ?case by auto
qed

text \<open>
  Claim C9.  \<^verbatim>\<open>create_run\<close> puts into \<^verbatim>\<open>RUNS\<close>, under the id it returns, a record with that
  id, the graph id, status \<^verbatim>\<open>created\<close>, an empty log, the reference to the initial state it
  was given (the executor's working copy, made later, is another object) and one clock reading
  for both timestamps.  In the life of a process, from an empty \<^verbatim>\<open>RUNS\<close> through any
  sequence of \<^verbatim>\<open>create_run\<close> and \<^verbatim>\<open>run_graph\<close> calls, the ids returned are all different.
\<close>

theorem create_run_inserts_fresh_run:
  "(\<exists>r. map_of (RUNS (snd (create_run E gid S w))) (fst (create_run E gid S w)) = Some r \<and>
        id_run r = fst (create_run E gid S w) \<and> graph_id r = gid \<and> state r = S \<and>
        log_run r = [] \<and> status r = ''created'' \<and>
        created_at r = updated_at r \<and> created_at r = utcnow E (ticks w)) \<and>
   (heap_fresh (mem w) \<longrightarrow> dicts (mem w) S \<noteq> None \<longrightarrow>
      (\<exists>st h1. working_copy S (mem (snd (create_run E gid S w))) = Inr (st, h1) \<and> st \<noteq> S)) \<and>
   (RUNS w0 = [] \<longrightarrow> distinct (fst (process E calls w0)))"
proof -
  have 1: "\<exists>r. map_of (RUNS (snd (create_run E gid S w))) (fst (create_run E gid S w)) = Some r \<and>
        id_run r = fst (create_run E gid S w) \<and> graph_id r = gid \<and> state r = S \<and>
        log_run r = [] \<and> status r = ''created'' \<and>
        created_at r = updated_at r \<and> created_at r = utcnow E (ticks w)"
    by (simp add: create_run_def Let_def update_conv')
  have 2: "\<exists>st h1. working_copy S (mem (snd (create_run E gid S w))) = Inr (st, h1) \<and> st \<noteq> S"
    if "heap_fresh (mem w)" "dicts (mem w) S \<noteq> None"
  proof -
    have m: "mem (snd (create_run E gid S w)) = mem w" by (simp add: create_run_def Let_def)
    from that show ?thesis unfolding m
      by (cases rule: working_copy_cases[of "mem w" S]) (auto simp: heap_fresh_def)
  qed
  have 3: "distinct (fst (process E calls w0))" if "RUNS w0 = []"
  proof -
    from that have "runs_numbered w0" by (simp add: runs_numbered_def)
    from process_numbered[OF this, of E calls] show ?thesis
      by (cases "process E calls w0") simp
  qed
  from 1 2 3 show ?thesis by blast
qed

theorem create_run_inserts_fresh_run_witness:
  "fst (process test_env
         [CreateRun ''A'' 0, RunGraph scenario_A 0 (Some ''run_1''), CreateRun ''A'' 0]
         (start_world Map.empty [])) = [''run_1'', ''run_2''] \<and>
   distinct (fst (process test_env
         [CreateRun ''A'' 0, RunGraph scenario_A 0 (Some ''run_1''), CreateRun ''A'' 0]
         (start_world Map.empty []))) \<and>
   (\<exists>st h1. working_copy 0 (mem (snd (create_run test_env ''A'' 0 (start_world Map.empty []))))
        = Inr (st, h1) \<and> st \<noteq> 0)"
proof -
  let ?w = "start_world Map.empty []"
  let ?cs = "[CreateRun ''A'' 0, RunGraph scenario_A 0 (Some ''run_1''), CreateRun ''A'' 0]"
  have e: "RUNS ?w = []" by (simp add: start_world_def)
  have fr: "heap_fresh (mem ?w)" "dicts (mem ?w) 0 \<noteq> None"
    by (simp_all add: heap_fresh_def start_world_def)
  have ids: "fst (process test_env ?cs ?w) = [''run_1'', ''run_2'']"
    by (simp add: exec_simps scenario_A_def)
  from create_run_inserts_fresh_run[of test_env "''A''" 0 ?w ?w ?cs] e fr ids
  show ?thesis by simp
qed

section \<open>A \<^verbatim>\<open>_finished\<close> flag in the initial state\<close>




end
